theory Spec2Isabelle
  imports Main "HOL-Library.Word"
begin

unbundle bit_operations_syntax

text \<open>
  A shallow embedding of \<open>vbus.c\<close> and \<open>vbus.h\<close>: the reader of packets from a
  vbus serial line. A packet on the wire is the marker byte \<open>0xaa\<close>, a header of nine
  bytes and as many frames of six bytes as the header counts; every byte but the marker
  has its top bit clear, and the header and each frame end in a checksum. The functions
  below keep the names of the C functions; a loop without a name of its own is named
  after what it does. The device is a list of bytes followed by a read that fails, and
  what the worker does to the outside is recorded as a list of events.
\<close>

section \<open>Data model of vbus.c\<close>

text \<open>
  \<open>uint8_t\<close> is an 8-bit word, \<open>uint16_t\<close> a 16-bit word, \<open>size_t\<close> and
  \<open>void *\<close> (as \<open>uintptr_t\<close>) are 64-bit words (LP64).
\<close>

type_synonym byte = "8 word"
type_synonym size_t = "64 word"
type_synonym ptr = "64 word"

definition VBUS_SYNC :: byte where
  "VBUS_SYNC = 0xaa"

definition VBUS_WIRE_HDR :: nat where
  "VBUS_WIRE_HDR = 9"

definition VBUS_WIRE_FRAME :: nat where
  "VBUS_WIRE_FRAME = 6"

definition VBUS_FRAME_LEN :: nat where
  "VBUS_FRAME_LEN = 4"

text \<open>\<open>struct vbus_pkt\<close> of vbus.h; the flexible array \<open>aux_data\<close> is a list.\<close>

record vbus_pkt =
  dst :: "16 word"
  src :: "16 word"
  cmd :: "16 word"
  proto :: byte
  frames :: byte
  aux_data :: "byte list"

text \<open>
  \<open>struct vbus_softc\<close>. The two \<open>termios\<close> structures are opaque values, the
  handler \<open>filter\<close> is the field \<open>filter_fn\<close>, kept as the fact that the pointer is
  not NULL (its calls are events of the world below), and the thread handle \<open>td\<close> is left out.
\<close>

record vbus_softc =
  fd :: int
  do_stty :: bool
  termios :: nat
  raw_termios :: nat
  filter_fn :: bool
  argp :: nat

text \<open>
  What the worker does to the outside, in order: every \<open>read(fd, &ch, 1)\<close> with
  the byte it delivered (\<open>None\<close> when it did not return 1), every call of the
  handler with its packet (\<open>None\<close> is the NULL packet), and the system calls of
  start-up and teardown.
\<close>

datatype event =
    Read int "byte option"
  | Filter nat "vbus_pkt option"
  | Open_dev string
  | Tcgetattr int
  | Tcsetattr int nat
  | Close int
  | Free_softc

text \<open>
  The world a worker runs in. \<open>input\<close> holds the bytes the device delivers
  before a read fails; \<open>read_errno\<close> says how the read after them fails: \<open>None\<close>
  is end of stream (\<open>read\<close> returns 0 and leaves \<open>errno\<close> alone), \<open>Some e\<close> is
  an error (\<open>read\<close> returns -1 and sets \<open>errno\<close> to \<open>e\<close>). \<open>heap k n\<close> is the
  outcome of the \<open>k\<close>-th coming call of \<open>malloc\<close> when asked for \<open>n\<close> bytes:
  \<open>None\<close> is NULL, \<open>Some junk\<close> is a block whose indeterminate content at offset
  \<open>i\<close> of the packet's \<open>aux_data\<close> is \<open>junk i\<close>. \<open>errno_set k\<close> is what the
  call of the handler, of \<open>free\<close> or of a system call other than \<open>read\<close> does to
  \<open>errno\<close> when it is made after \<open>k\<close> events: \<open>None\<close> leaves \<open>errno\<close> alone,
  \<open>Some e\<close> sets it to \<open>e\<close>.
\<close>

record world =
  input :: "byte list"
  read_errno :: "int option"
  errno :: int
  errno_set :: "nat \<Rightarrow> int option"
  heap :: "nat \<Rightarrow> nat \<Rightarrow> (nat \<Rightarrow> byte) option"
  events :: "event list"

text \<open>
  The result of a piece of worker code: it returns a value, or the thread has called
  \<open>pthread_exit\<close> with the given value, or the C code has left defined behaviour
  (a read outside an array, a call through a NULL pointer).
\<close>

datatype 'a outcome = Exit ptr world | Fault world | Ret 'a world

definition emit :: "event \<Rightarrow> world \<Rightarrow> world" where
  "emit e w = w\<lparr>events := events w @ [e]\<rparr>"

text \<open>
  A call that may set \<open>errno\<close>: the handler, \<open>free\<close>, \<open>open\<close>, \<open>tcgetattr\<close>,
  \<open>tcsetattr\<close>, \<open>close\<close>.
\<close>

definition call :: "event \<Rightarrow> world \<Rightarrow> world" where
  "call e w =
     emit e (w\<lparr>errno := (case errno_set w (length (events w)) of
                            None \<Rightarrow> errno w | Some v \<Rightarrow> v)\<rparr>)"

section \<open>Teardown and byte reads\<close>

text \<open>\<open>vbus_cleanup\<close>, lines 59-72. \<open>None\<close> is \<open>sc == NULL\<close>; \<open>free(NULL)\<close> does nothing.\<close>

definition vbus_cleanup :: "vbus_softc option \<Rightarrow> world \<Rightarrow> world" where
  "vbus_cleanup sc w =
     (case sc of
        None \<Rightarrow> w
      | Some s \<Rightarrow>
          (let w1 = (if do_stty s then call (Tcsetattr (fd s) (termios s)) w else w);
               w2 = (if fd s \<noteq> -1 then call (Close (fd s)) w1 else w1);
               w3 = (if filter_fn s then call (Filter (argp s) None) w2 else w2)
           in call Free_softc w3))"

definition vbus_dtor :: "vbus_softc option \<Rightarrow> world \<Rightarrow> world" where
  "vbus_dtor xsc w = vbus_cleanup xsc w"

text \<open>\<open>vbus_fini\<close>, lines 82-87: \<open>pthread_exit(NULL)\<close>.\<close>

definition vbus_fini :: "world \<Rightarrow> 'a outcome" where
  "vbus_fini w = Exit 0 w"

text \<open>\<open>vbus_getc\<close>, lines 89-98.\<close>

definition vbus_getc :: "vbus_softc \<Rightarrow> world \<Rightarrow> byte outcome" where
  "vbus_getc sc w =
     (case input w of
        [] \<Rightarrow>
          vbus_fini (emit (Read (fd sc) None)
            (w\<lparr>errno := (case read_errno w of None \<Rightarrow> errno w | Some e \<Rightarrow> e)\<rparr>))
      | ch # rest \<Rightarrow> Ret ch (emit (Read (fd sc) (Some ch)) (w\<lparr>input := rest\<rparr>)))"

section \<open>Checksum\<close>

text \<open>
  The loop of \<open>vbus_crc_ok\<close>, lines 105-106: \<open>for (i = 0; i < len - 1; i++) sum +=
  buffer[i]\<close>, where \<open>bound\<close> is the value of \<open>len - 1\<close>. A read outside the
  buffer is \<open>None\<close>. (The counter \<open>i\<close> is an \<open>int\<close>; it is a natural number
  here, which is the same for the spans shorter than \<open>2^31\<close> bytes; the
  variable \<open>sum\<close> is \<open>csum\<close>.)
\<close>

function crc_loop :: "byte list \<Rightarrow> nat \<Rightarrow> nat \<Rightarrow> byte \<Rightarrow> byte option" where
  "crc_loop buffer bound i csum =
     (if i < bound
      then (if i < length buffer then crc_loop buffer bound (Suc i) (csum + buffer ! i) else None)
      else Some csum)"
  by pat_completeness auto
termination
  by (relation "measure (\<lambda>(buffer, bound, i, csum). bound - i)") auto

declare crc_loop.simps [simp del]

text \<open>
  The value of \<open>sum\<close> after line 107, \<open>sum = ~sum & 0x7f\<close>. \<open>len - 1\<close> is computed
  in \<open>size_t\<close>, so it wraps around for \<open>len = 0\<close>.
\<close>

definition crc_value :: "byte list \<Rightarrow> size_t \<Rightarrow> byte option" where
  "crc_value buffer len =
     (case crc_loop buffer (unat (len - 1)) 0 0 of
        None \<Rightarrow> None
      | Some csum \<Rightarrow> Some (NOT csum AND 0x7f))"

text \<open>\<open>vbus_crc_ok\<close>, lines 100-111.\<close>

definition vbus_crc_ok :: "byte list \<Rightarrow> size_t \<Rightarrow> bool option" where
  "vbus_crc_ok buffer len =
     (case crc_value buffer len of
        None \<Rightarrow> None
      | Some csum \<Rightarrow>
          if unat (len - 1) < length buffer
          then (if csum \<noteq> buffer ! unat (len - 1) then Some False else Some True)
          else None)"

section \<open>Header and frame decoding\<close>

text \<open>\<open>malloc(n)\<close>: the next outcome of the heap.\<close>

definition malloc :: "nat \<Rightarrow> world \<Rightarrow> (nat \<Rightarrow> byte) option \<times> world" where
  "malloc n w = (heap w 0 n, w\<lparr>heap := (\<lambda>k. heap w (Suc k))\<rparr>)"

text \<open>
  \<open>vbus_parse_header\<close>, lines 113-131. \<open>sizeof(struct vbus_pkt)\<close> is 8. The result
  \<open>None\<close> is NULL.
\<close>

definition vbus_parse_header :: "byte list \<Rightarrow> world \<Rightarrow> vbus_pkt option outcome" where
  "vbus_parse_header buffer w =
     (case vbus_crc_ok buffer (of_nat VBUS_WIRE_HDR) of
        None \<Rightarrow> Fault w
      | Some ok \<Rightarrow>
          if \<not> ok then Ret None w
          else
            (case malloc (8 + 4 * unat (buffer ! 7)) w of
               (None, w') \<Rightarrow> Ret None w'
             | (Some junk, w') \<Rightarrow>
                 Ret (Some \<lparr>
                   dst = ucast (buffer ! 0) OR push_bit 8 (ucast (buffer ! 1)),
                   src = ucast (buffer ! 2) OR push_bit 8 (ucast (buffer ! 3)),
                   cmd = ucast (buffer ! 5) OR push_bit 8 (ucast (buffer ! 6)),
                   proto = buffer ! 4,
                   frames = buffer ! 7,
                   aux_data = map junk [0 ..< 4 * unat (buffer ! 7)]\<rparr>) w'))"

text \<open>
  The two reading loops, lines 139-143 and 172-176: \<open>for (i = 0; i < N; i++) {
  buffer[i] = vbus_getc(sc); if (buffer[i] & 0x80) ... }\<close>. The first argument counts
  the iterations still to run, \<open>buffer\<close> holds the bytes stored so far. The result
  \<open>None\<close> is the way out on a byte with the top bit set (\<open>return -1\<close> in
  \<open>vbus_read_frame\<close>, \<open>goto top\<close> in \<open>vbus_thread\<close>).
\<close>

fun wire_loop :: "nat \<Rightarrow> vbus_softc \<Rightarrow> byte list \<Rightarrow> world \<Rightarrow> byte list option outcome" where
  "wire_loop 0 sc buffer w = Ret (Some buffer) w"
| "wire_loop (Suc n) sc buffer w =
     (case vbus_getc sc w of
        Exit rv w' \<Rightarrow> Exit rv w'
      | Fault w' \<Rightarrow> Fault w'
      | Ret ch w' \<Rightarrow>
          if ch AND 0x80 \<noteq> 0 then Ret None w' else wire_loop n sc (buffer @ [ch]) w')"

text \<open>
  \<open>vbus_read_frame\<close>, lines 133-152. The result \<open>None\<close> is the return value -1
  (nothing is stored through \<open>frame\<close>); \<open>Some [f0, f1, f2, f3]\<close> is the return value
  0 with the four bytes stored to \<open>frame[0..3]\<close>. In C the conditional operator binds
  weaker than \<open>|\<close>, so line 146 is \<open>(buffer[0] | (buffer[4] & 1)) ? 0x80 : 0\<close>.
\<close>

definition vbus_read_frame :: "vbus_softc \<Rightarrow> world \<Rightarrow> byte list option outcome" where
  "vbus_read_frame sc w =
     (case wire_loop VBUS_WIRE_FRAME sc [] w of
        Exit rv w' \<Rightarrow> Exit rv w'
      | Fault w' \<Rightarrow> Fault w'
      | Ret None w' \<Rightarrow> Ret None w'
      | Ret (Some buffer) w' \<Rightarrow>
          (case vbus_crc_ok buffer (of_nat (length buffer)) of
             None \<Rightarrow> Fault w'
           | Some ok \<Rightarrow>
               if \<not> ok then Ret None w'
               else Ret (Some
                 [if (buffer ! 0 OR (buffer ! 4 AND 1)) \<noteq> 0 then 0x80 else 0,
                  if (buffer ! 1 OR (buffer ! 4 AND 2)) \<noteq> 0 then 0x80 else 0,
                  if (buffer ! 2 OR (buffer ! 4 AND 4)) \<noteq> 0 then 0x80 else 0,
                  if (buffer ! 3 OR (buffer ! 4 AND 8)) \<noteq> 0 then 0x80 else 0]) w'))"

section \<open>The worker loop\<close>

lemma vbus_getc_input:
  "vbus_getc sc w = Ret ch w' \<Longrightarrow> input w = ch # input w'"
  by (auto simp: vbus_getc_def vbus_fini_def emit_def call_def split: list.splits)

text \<open>Lines 169-171: \<open>do { ch = vbus_getc(sc); } while (ch != VBUS_SYNC)\<close>.\<close>

function sync_loop :: "vbus_softc \<Rightarrow> world \<Rightarrow> unit outcome" where
  "sync_loop sc w =
     (case vbus_getc sc w of
        Exit rv w' \<Rightarrow> Exit rv w'
      | Fault w' \<Rightarrow> Fault w'
      | Ret ch w' \<Rightarrow> if ch \<noteq> VBUS_SYNC then sync_loop sc w' else Ret () w')"
  by pat_completeness auto
termination
  by (relation "measure (\<lambda>(sc, w). length (input w))") (auto dest: vbus_getc_input)

declare sync_loop.simps [simp del]

text \<open>
  Lines 180-183: \<open>for (i = 0; i < pkt->frames; i++) if (vbus_read_frame(sc,
  pkt->aux_data + i * VBUS_FRAME_LEN)) goto top\<close>. The result \<open>None\<close> is the
  \<open>goto top\<close>; \<open>Some pkt\<close> is the packet after the loop. A store outside
  \<open>aux_data\<close> is a fault.
\<close>

function frames_loop :: "vbus_softc \<Rightarrow> vbus_pkt \<Rightarrow> nat \<Rightarrow> world \<Rightarrow> vbus_pkt option outcome" where
  "frames_loop sc pkt i w =
     (if i < unat (frames pkt)
      then
        (case vbus_read_frame sc w of
           Exit rv w' \<Rightarrow> Exit rv w'
         | Fault w' \<Rightarrow> Fault w'
         | Ret None w' \<Rightarrow> Ret None w'
         | Ret (Some frame) w' \<Rightarrow>
             if i * VBUS_FRAME_LEN + 4 \<le> length (aux_data pkt)
             then frames_loop sc
               (pkt\<lparr>aux_data := (aux_data pkt)
                  [i * VBUS_FRAME_LEN := frame ! 0,
                   i * VBUS_FRAME_LEN + 1 := frame ! 1,
                   i * VBUS_FRAME_LEN + 2 := frame ! 2,
                   i * VBUS_FRAME_LEN + 3 := frame ! 3]\<rparr>)
               (Suc i) w'
             else Fault w')
      else Ret (Some pkt) w)"
  by pat_completeness auto
termination
  by (relation "measure (\<lambda>(sc, pkt, i, w). unat (frames pkt) - i)") auto

declare frames_loop.simps [simp del]

lemma wire_loop_input_le:
  "wire_loop n sc buffer w = Ret r w' \<Longrightarrow> length (input w') \<le> length (input w)"
proof (induction n arbitrary: buffer w)
  case 0
  then show ?case by simp
next
  case (Suc n)
  show ?case
  proof (cases "vbus_getc sc w")
    case (Ret ch w1)
    then have "length (input w1) < length (input w)"
      by (auto dest: vbus_getc_input)
    moreover have "length (input w') \<le> length (input w1)"
      using Suc.prems Ret Suc.IH [of "buffer @ [ch]" w1]
      by (auto split: if_splits)
    ultimately show ?thesis by simp
  qed (use Suc.prems in auto)
qed

lemma sync_loop_input_less:
  "sync_loop sc w = Ret r w' \<Longrightarrow> length (input w') < length (input w)"
proof (induction sc w rule: sync_loop.induct)
  case (1 sc w)
  show ?case
  proof (cases "vbus_getc sc w")
    case (Ret ch w1)
    then have less: "length (input w1) < length (input w)"
      by (auto dest: vbus_getc_input)
    show ?thesis
    proof (cases "ch = VBUS_SYNC")
      case True
      with Ret "1.prems" have "w' = w1" by (simp add: sync_loop.simps [of sc w])
      with less show ?thesis by simp
    next
      case False
      with Ret "1.prems" have "sync_loop sc w1 = Ret r w'"
        by (simp add: sync_loop.simps [of sc w])
      then have "length (input w') < length (input w1)"
        using "1.IH" Ret False by simp
      with less show ?thesis by simp
    qed
  qed (use "1.prems" in \<open>simp_all add: sync_loop.simps [of sc w]\<close>)
qed

lemma vbus_read_frame_input_le:
  "vbus_read_frame sc w = Ret r w' \<Longrightarrow> length (input w') \<le> length (input w)"
  unfolding vbus_read_frame_def
  by (cases "wire_loop VBUS_WIRE_FRAME sc [] w")
     (auto split: option.splits if_splits dest: wire_loop_input_le)

lemma frames_loop_input_le:
  "frames_loop sc pkt i w = Ret r w' \<Longrightarrow> length (input w') \<le> length (input w)"
proof (induction sc pkt i w rule: frames_loop.induct)
  case (1 sc pkt i w)
  show ?case
  proof (cases "i < unat (frames pkt)")
    case False
    with "1.prems" show ?thesis by (simp add: frames_loop.simps [of sc pkt i w])
  next
    case True
    show ?thesis
    proof (cases "vbus_read_frame sc w")
      case (Ret fr w1)
      then have le: "length (input w1) \<le> length (input w)"
        by (rule vbus_read_frame_input_le)
      show ?thesis
      proof (cases fr)
        case None
        with Ret True "1.prems" have "w' = w1" by (simp add: frames_loop.simps [of sc pkt i w])
        with le show ?thesis by simp
      next
        case (Some frame)
        show ?thesis
        proof (cases "i * VBUS_FRAME_LEN + 4 \<le> length (aux_data pkt)")
          case False
          with Some Ret True "1.prems" show ?thesis
            by (simp add: frames_loop.simps [of sc pkt i w])
        next
          case inb: True
          with Some Ret True "1.prems" "1.IH" [OF True Ret Some inb]
          have "length (input w') \<le> length (input w1)"
            by (simp add: frames_loop.simps [of sc pkt i w])
          with le show ?thesis by simp
        qed
      qed
    qed (use True "1.prems" in \<open>simp_all add: frames_loop.simps [of sc pkt i w]\<close>)
  qed
qed

lemma vbus_parse_header_input:
  "vbus_parse_header buffer w = Ret r w' \<Longrightarrow> input w' = input w"
  by (auto simp: vbus_parse_header_def malloc_def
      split: option.splits if_splits prod.splits)

text \<open>
  The body of \<open>while (true)\<close> in \<open>vbus_thread\<close>, lines 167-186; every \<open>goto
  top\<close> and \<open>continue\<close> is the next pass of the loop. The loop has no way out but
  the thread's exit in \<open>vbus_getc\<close>. \<open>free(pkt)\<close> changes nothing of the world.
\<close>

function thread_loop :: "vbus_softc \<Rightarrow> world \<Rightarrow> unit outcome" where
  "thread_loop sc w =
     (case sync_loop sc w of
        Exit rv w1 \<Rightarrow> Exit rv w1
      | Fault w1 \<Rightarrow> Fault w1
      | Ret u w1 \<Rightarrow>
          (case wire_loop VBUS_WIRE_HDR sc [] w1 of
             Exit rv w2 \<Rightarrow> Exit rv w2
           | Fault w2 \<Rightarrow> Fault w2
           | Ret None w2 \<Rightarrow> thread_loop sc w2
           | Ret (Some buffer) w2 \<Rightarrow>
               (case vbus_parse_header buffer w2 of
                  Exit rv w3 \<Rightarrow> Exit rv w3
                | Fault w3 \<Rightarrow> Fault w3
                | Ret None w3 \<Rightarrow> thread_loop sc w3
                | Ret (Some pkt) w3 \<Rightarrow>
                    (case frames_loop sc pkt 0 w3 of
                       Exit rv w4 \<Rightarrow> Exit rv w4
                     | Fault w4 \<Rightarrow> Fault w4
                     | Ret None w4 \<Rightarrow> thread_loop sc w4
                     | Ret (Some pkt') w4 \<Rightarrow>
                         if filter_fn sc
                         then thread_loop sc (call (Filter (argp sc) (Some pkt')) w4)
                         else Fault w4))))"
  by pat_completeness auto
termination
proof (relation "measure (\<lambda>(sc, w). length (input w))", goal_cases)
  case 1
  then show ?case by simp
next
  case (2 sc w u w1 r w2)
  then show ?case
    using sync_loop_input_less [of sc w u w1] wire_loop_input_le [of VBUS_WIRE_HDR sc "[]" w1 r w2]
    by simp
next
  case (3 sc w u w1 r w2 buffer r' w3)
  then show ?case
    using sync_loop_input_less [of sc w u w1] wire_loop_input_le [of VBUS_WIRE_HDR sc "[]" w1 r w2]
      vbus_parse_header_input [of buffer w2 r' w3]
    by simp
next
  case (4 sc w u w1 r w2 buffer r' w3 pkt r'' w4)
  then show ?case
    using sync_loop_input_less [of sc w u w1] wire_loop_input_le [of VBUS_WIRE_HDR sc "[]" w1 r w2]
      vbus_parse_header_input [of buffer w2 r' w3] frames_loop_input_le [of sc pkt 0 w3 r'' w4]
    by simp
next
  case (5 sc w u w1 r w2 buffer r' w3 pkt r'' w4 pkt')
  then show ?case
    using sync_loop_input_less [of sc w u w1] wire_loop_input_le [of VBUS_WIRE_HDR sc "[]" w1 r w2]
      vbus_parse_header_input [of buffer w2 r' w3] frames_loop_input_le [of sc pkt 0 w3 r'' w4]
    by (simp add: emit_def call_def)
qed

declare thread_loop.simps [simp del]

text \<open>
  \<open>vbus_thread\<close>, lines 154-187. The first argument is the return value of
  \<open>pthread_setspecific(vbus_key, sc)\<close>. When it is 0 the key holds \<open>sc\<close>, and the
  thread's exit in \<open>vbus_fini\<close> runs the key's destructor \<open>vbus_dtor\<close> on it.
  When it is not 0 the key holds nothing: the thread cleans up itself and exits
  with \<open>(void *)(uintptr_t)errno\<close>, where \<open>errno\<close> is read after \<open>vbus_cleanup\<close>
  has returned.
\<close>

definition vbus_thread :: "int \<Rightarrow> vbus_softc \<Rightarrow> world \<Rightarrow> unit outcome" where
  "vbus_thread setspecific_rc sc w =
     (if setspecific_rc \<noteq> 0
      then (let w' = vbus_cleanup (Some sc) w in Exit (word_of_int (errno w')) w')
      else
        (case thread_loop sc w of
           Exit rv w' \<Rightarrow> Exit rv (vbus_dtor (Some sc) w')
         | Fault w' \<Rightarrow> Fault w'
         | Ret u w' \<Rightarrow> Ret u w'))"

section \<open>Start and join\<close>

text \<open>
  What the operating system answers to \<open>vbus_init\<close>: the return value of
  \<open>pthread_key_create\<close>, whether \<open>malloc\<close> gives the softc, the descriptor (or
  -1) \<open>open(path, O_RDWR)\<close> returns, the settings \<open>tcgetattr\<close> stores (\<open>None\<close>
  when it fails), what \<open>cfmakeraw\<close> and \<open>cfsetspeed(B9600)\<close> make of them, and
  the return values of \<open>tcsetattr\<close> and \<open>pthread_create\<close>.
\<close>

record os =
  key_create_rc :: int
  malloc_softc :: bool
  open_rc :: "string \<Rightarrow> int"
  tcgetattr_res :: "int \<Rightarrow> nat option"
  cfraw :: "nat \<Rightarrow> nat"
  tcsetattr_rc :: "int \<Rightarrow> nat \<Rightarrow> int"
  pthread_create_rc :: int

text \<open>
  The result of \<open>vbus_init\<close>: NULL, or the cookie \<open>sc\<close> with the worker
  \<open>vbus_thread\<close> started on it, or a fault (\<open>strcmp\<close> on a NULL pointer).
\<close>

datatype init_result = Init_fault world | Init_null world | Init_started vbus_softc world

text \<open>
  The condition of line 207, \<open>vbus_fn != NULL || strcmp(vbus_fn, "-") != 0\<close>;
  \<open>||\<close> evaluates its right operand only when the left one is false. \<open>None\<close> is
  the fault of \<open>strcmp(NULL, "-")\<close>.
\<close>

definition open_wanted :: "string option \<Rightarrow> bool option" where
  "open_wanted vbus_fn =
     (if vbus_fn \<noteq> None then Some True
      else (case vbus_fn of None \<Rightarrow> None | Some fn \<Rightarrow> Some (fn \<noteq> ''-'')))"

text \<open>Lines 222-227: the launch of the worker, and the way out \<open>err\<close>.\<close>

definition init_launch :: "os \<Rightarrow> vbus_softc \<Rightarrow> world \<Rightarrow> init_result" where
  "init_launch os sc w =
     (if pthread_create_rc os \<noteq> 0 then Init_null (vbus_cleanup (Some sc) w)
      else Init_started sc w)"

text \<open>Lines 210-221.\<close>

definition init_stty :: "os \<Rightarrow> bool \<Rightarrow> vbus_softc \<Rightarrow> world \<Rightarrow> init_result" where
  "init_stty os do_stty_arg sc w =
     (if fd sc = -1 then Init_null (vbus_cleanup (Some sc) w)
      else if do_stty_arg then
        (case tcgetattr_res os (fd sc) of
           None \<Rightarrow> Init_null (vbus_cleanup (Some sc) (call (Tcgetattr (fd sc)) w))
         | Some tio \<Rightarrow>
             (let sc1 = sc\<lparr>termios := tio, raw_termios := cfraw os tio\<rparr>;
                  w1 = call (Tcsetattr (fd sc1) (raw_termios sc1)) (call (Tcgetattr (fd sc)) w)
              in if tcsetattr_rc os (fd sc1) (raw_termios sc1) \<noteq> 0
                 then Init_null (vbus_cleanup (Some sc1) w1)
                 else init_launch os (sc1\<lparr>do_stty := do_stty_arg\<rparr>) w1))
      else init_launch os sc w)"

text \<open>
  \<open>vbus_init\<close>, lines 189-228. The first argument is the value of the global
  \<open>vbus_key\<close> at the call. \<open>memset\<close> leaves \<open>fd = 0\<close> (standard input) and
  \<open>do_stty = false\<close>.
\<close>

definition vbus_init ::
  "nat \<Rightarrow> os \<Rightarrow> string option \<Rightarrow> bool \<Rightarrow> bool \<Rightarrow> nat \<Rightarrow> world \<Rightarrow> init_result" where
  "vbus_init vbus_key os vbus_fn do_stty_arg filter_arg argp_arg w =
     (if vbus_key = 0 \<and> key_create_rc os \<noteq> 0 then Init_null (vbus_cleanup None w)
      else if \<not> malloc_softc os then Init_null (vbus_cleanup None w)
      else
        (let sc = \<lparr>fd = 0, do_stty = False, termios = 0, raw_termios = 0,
                   filter_fn = filter_arg, argp = argp_arg\<rparr>
         in case open_wanted vbus_fn of
              None \<Rightarrow> Init_fault w
            | Some False \<Rightarrow> init_stty os do_stty_arg sc w
            | Some True \<Rightarrow>
                (case vbus_fn of
                   None \<Rightarrow> Init_fault w
                 | Some fn \<Rightarrow>
                     init_stty os do_stty_arg (sc\<lparr>fd := open_rc os fn\<rparr>) (call (Open_dev fn) w))))"

text \<open>
  \<open>vbus_join\<close>, lines 230-238: \<open>pthread_join(sc->td, &rv)\<close> waits for the worker
  and stores the value it exited with. The second argument is the finished run of the
  worker. The first says whether \<open>sc\<close> is still allocated when \<open>sc->td\<close> is read (the
  worker frees it in \<open>vbus_cleanup\<close> when it exits); \<open>None\<close> is a read of freed
  memory, or a worker that did not exit.
\<close>

definition vbus_join :: "bool \<Rightarrow> unit outcome \<Rightarrow> ptr option" where
  "vbus_join live td =
     (if \<not> live then None
      else (case td of Exit rv w \<Rightarrow> Some rv | Fault w \<Rightarrow> None | Ret u w \<Rightarrow> None))"

section \<open>Notions used in the statements\<close>

text \<open>A span of wire bytes none of which has the top bit set.\<close>

definition wire_clean :: "byte list \<Rightarrow> bool" where
  "wire_clean bs = (\<forall>b\<in>set bs. b AND 0x80 = 0)"

text \<open>
  The world after the worker has read the bytes \<open>bs\<close> from the head of the input,
  one \<open>read\<close> each.
\<close>

definition consume :: "vbus_softc \<Rightarrow> byte list \<Rightarrow> world \<Rightarrow> world" where
  "consume sc bs w =
     w\<lparr>input := drop (length bs) (input w),
       events := events w @ map (\<lambda>b. Read (fd sc) (Some b)) bs\<rparr>"


text \<open>
  A worker state and a world for the concrete runs below; in this world every
  allocation succeeds and no call but a failing \<open>read\<close> sets \<open>errno\<close>.
\<close>

definition sc0 :: vbus_softc where
  "sc0 = \<lparr>fd = 3, do_stty = False, termios = 0, raw_termios = 0, filter_fn = True, argp = 0\<rparr>"

definition world0 :: "byte list \<Rightarrow> int option \<Rightarrow> world" where
  "world0 bs e =
     \<lparr>input = bs, read_errno = e, errno = 0, errno_set = (\<lambda>k. None),
      heap = (\<lambda>k n. Some (\<lambda>i. 0)), events = []\<rparr>"

text \<open>
  A world with no input in which \<open>errno\<close> is \<open>e\<close> and the first call made sets it to
  \<open>e'\<close>; for the worker state \<open>sc0\<close> the first call of the teardown is \<open>close\<close>.
\<close>

definition close_sets_errno :: "int \<Rightarrow> int \<Rightarrow> world" where
  "close_sets_errno e e' =
     (world0 [] None)\<lparr>errno := e, errno_set := (\<lambda>k. if k = 0 then Some e' else None)\<rparr>"


text \<open>
  The world after a \<open>read\<close> that did not return 1: the event, and \<open>errno\<close> as the
  failure sets it.
\<close>

definition read_fails :: "vbus_softc \<Rightarrow> world \<Rightarrow> world" where
  "read_fails sc w =
     emit (Read (fd sc) None)
       (w\<lparr>errno := (case read_errno w of None \<Rightarrow> errno w | Some e \<Rightarrow> e)\<rparr>)"

text \<open>
  A header and a frame as they must be on the wire: 9 and 6 bytes with the top bit
  clear and a checksum that \<open>vbus_crc_ok\<close> accepts.
\<close>

definition valid_header :: "byte list \<Rightarrow> bool" where
  "valid_header hdr \<longleftrightarrow> length hdr = 9 \<and> wire_clean hdr \<and> vbus_crc_ok hdr 9 = Some True"

definition valid_frame :: "byte list \<Rightarrow> bool" where
  "valid_frame f \<longleftrightarrow> length f = 6 \<and> wire_clean f \<and> vbus_crc_ok f 6 = Some True"

text \<open>
  A frame the worker gives up on: six clean bytes with a wrong checksum, or up to
  five clean bytes and then a byte with the top bit set.
\<close>

definition bad_frame :: "byte list \<Rightarrow> bool" where
  "bad_frame f \<longleftrightarrow>
     (length f = 6 \<and> wire_clean f \<and> vbus_crc_ok f 6 = Some False) \<or>
     (f \<noteq> [] \<and> length f \<le> 6 \<and> wire_clean (butlast f) \<and> last f AND 0x80 \<noteq> 0)"

text \<open>
  The four bytes lines 146-149 store for the wire bytes \<open>buffer\<close>, and the payload
  after the frames \<open>fs\<close> have been stored from frame number \<open>i\<close> on.
\<close>

definition frame_bytes :: "byte list \<Rightarrow> byte list" where
  "frame_bytes buffer =
     [if (buffer ! 0 OR (buffer ! 4 AND 1)) \<noteq> 0 then 0x80 else 0,
      if (buffer ! 1 OR (buffer ! 4 AND 2)) \<noteq> 0 then 0x80 else 0,
      if (buffer ! 2 OR (buffer ! 4 AND 4)) \<noteq> 0 then 0x80 else 0,
      if (buffer ! 3 OR (buffer ! 4 AND 8)) \<noteq> 0 then 0x80 else 0]"

fun store_frames :: "byte list \<Rightarrow> nat \<Rightarrow> byte list list \<Rightarrow> byte list" where
  "store_frames aux i [] = aux"
| "store_frames aux i (f # fs) =
     store_frames
       (aux[i * VBUS_FRAME_LEN := frame_bytes f ! 0,
            i * VBUS_FRAME_LEN + 1 := frame_bytes f ! 1,
            i * VBUS_FRAME_LEN + 2 := frame_bytes f ! 2,
            i * VBUS_FRAME_LEN + 3 := frame_bytes f ! 3])
       (Suc i) fs"

text \<open>
  The packet \<open>vbus_parse_header\<close> builds from the header bytes \<open>hdr\<close> in a fresh block
  of content \<open>junk\<close>, and the world after one call of \<open>malloc\<close>.
\<close>

definition header_pkt :: "byte list \<Rightarrow> (nat \<Rightarrow> byte) \<Rightarrow> vbus_pkt" where
  "header_pkt hdr junk =
     \<lparr>dst = ucast (hdr ! 0) OR push_bit 8 (ucast (hdr ! 1)),
      src = ucast (hdr ! 2) OR push_bit 8 (ucast (hdr ! 3)),
      cmd = ucast (hdr ! 5) OR push_bit 8 (ucast (hdr ! 6)),
      proto = hdr ! 4,
      frames = hdr ! 7,
      aux_data = map junk [0 ..< 4 * unat (hdr ! 7)]\<rparr>"

definition heap_next :: "world \<Rightarrow> world" where
  "heap_next w = w\<lparr>heap := (\<lambda>k. heap w (Suc k))\<rparr>"

text \<open>
  \<open>quiet sc w w'\<close>: from \<open>w\<close> to \<open>w'\<close> the worker has only read bytes (and possibly
  called \<open>malloc\<close>).
\<close>

definition quiet :: "vbus_softc \<Rightarrow> world \<Rightarrow> world \<Rightarrow> bool" where
  "quiet sc w w' \<longleftrightarrow>
     (\<exists>bs. input w = bs @ input w' \<and>
           events w' = events w @ map (\<lambda>b. Read (fd sc) (Some b)) bs) \<and>
     read_errno w' = read_errno w \<and> errno w' = errno w"

text \<open>The events of the running loop: a byte read, a packet handed to the handler.\<close>

fun loop_event :: "event \<Rightarrow> bool" where
  "loop_event (Read f (Some b)) = True"
| "loop_event (Filter a (Some p)) = True"
| "loop_event e = False"

text \<open>
  The packet that a header and its frames decode to: the fields of
  \<open>vbus_parse_header\<close> and, as payload, the bytes of \<open>vbus_read_frame\<close> frame by
  frame.
\<close>

definition decoded_pkt :: "byte list \<Rightarrow> byte list list \<Rightarrow> vbus_pkt" where
  "decoded_pkt hdr fs =
     \<lparr>dst = ucast (hdr ! 0) OR push_bit 8 (ucast (hdr ! 1)),
      src = ucast (hdr ! 2) OR push_bit 8 (ucast (hdr ! 3)),
      cmd = ucast (hdr ! 5) OR push_bit 8 (ucast (hdr ! 6)),
      proto = hdr ! 4,
      frames = hdr ! 7,
      aux_data = concat (map frame_bytes fs)\<rparr>"

text \<open>
  \<open>on_wire inp pkt\<close>: the input holds, after a marker byte, a valid header and as
  many valid frames as the header counts, and \<open>pkt\<close> is the packet decoded from them.
\<close>

definition on_wire :: "byte list \<Rightarrow> vbus_pkt \<Rightarrow> bool" where
  "on_wire inp pkt \<longleftrightarrow>
     (\<exists>pre hdr fs post.
        inp = pre @ VBUS_SYNC # hdr @ concat fs @ post \<and>
        valid_header hdr \<and> length fs = unat (hdr ! 7) \<and> (\<forall>f\<in>set fs. valid_frame f) \<and>
        pkt = decoded_pkt hdr fs)"

text \<open>A call of the handler with the NULL packet.\<close>

fun is_sentinel :: "event \<Rightarrow> bool" where
  "is_sentinel (Filter a None) = True"
| "is_sentinel e = False"

text \<open>The world a piece of worker code ends in.\<close>

fun final_world :: "'a outcome \<Rightarrow> world" where
  "final_world (Exit rv w) = w"
| "final_world (Fault w) = w"
| "final_world (Ret x w) = w"

text \<open>
  An operating system for the concrete runs below: only \<open>/dev/ttyUSB0\<close> can be
  opened (there is no file named \<open>-\<close>), and every other call succeeds.
\<close>

definition os0 :: os where
  "os0 = \<lparr>key_create_rc = 0, malloc_softc = True,
          open_rc = (\<lambda>path. if path = ''/dev/ttyUSB0'' then 3 else -1),
          tcgetattr_res = (\<lambda>fd. Some 7), cfraw = (\<lambda>tio. tio + 1),
          tcsetattr_rc = (\<lambda>fd tio. 0), pthread_create_rc = 0\<rparr>"

text \<open>
  A header that announces one frame, a valid frame, the same frame with a wrong
  checksum, and the packet the worker decodes from the first two.
\<close>

definition hdr1 :: "byte list" where
  "hdr1 = [0x10, 0x00, 0x21, 0x7e, 0x10, 0x00, 0x01, 0x01, 0x3e]"

definition frame1 :: "byte list" where
  "frame1 = [0x01, 0x00, 0x7f, 0x00, 0x02, 0x7d]"

definition pkt1 :: vbus_pkt where
  "pkt1 = \<lparr>dst = 0x0010, src = 0x7e21, cmd = 0x0100, proto = 0x10, frames = 1,
           aux_data = [0x80, 0x80, 0x80, 0x00]\<rparr>"

definition frame1_bad :: "byte list" where
  "frame1_bad = [0x01, 0x00, 0x7f, 0x00, 0x02, 0x7c]"

section \<open>Auxiliary facts\<close>

subsection \<open>Words\<close>

lemma mask7: "(0x7f::byte) = mask 7"
  by (simp add: mask_eq_exp_minus_1)

lemma not_low7_eq_iff:
  "(NOT a AND 0x7f = NOT b AND (0x7f::byte)) \<longleftrightarrow> take_bit 7 a = take_bit 7 b"
  unfolding mask7 take_bit_eq_mask [symmetric]
  by (auto simp: bit_eq_iff bit_simps)

lemma low7_eq_iff: "(a AND 0x7f = b AND (0x7f::byte)) \<longleftrightarrow> take_bit 7 a = take_bit 7 b"
  unfolding mask7 take_bit_eq_mask [symmetric] ..

lemma take_bit7_add: "take_bit 7 (take_bit 7 a + take_bit 7 b) = take_bit 7 (a + b :: byte)"
  by transfer (simp add: take_bit_add min_def)

lemma take_bit7_cancel:
  fixes s b v :: byte
  assumes "take_bit 7 (s - b + v) = take_bit 7 s"
  shows "take_bit 7 v = take_bit 7 b"
proof -
  have "take_bit 7 v = take_bit 7 ((s - b + v) + (b - s))" by simp
  also have "\<dots> = take_bit 7 (take_bit 7 (s - b + v) + take_bit 7 (b - s))"
    by (simp only: take_bit7_add)
  also have "\<dots> = take_bit 7 (take_bit 7 s + take_bit 7 (b - s))"
    by (simp only: assms)
  also have "\<dots> = take_bit 7 (s + (b - s))"
    by (simp only: take_bit7_add)
  finally show ?thesis by simp
qed

lemma take_bit7_same_low:
  fixes s b v :: byte
  assumes "take_bit 7 v = take_bit 7 b"
  shows "take_bit 7 (s - b + v) = take_bit 7 s"
proof -
  have "take_bit 7 (s - b + v) = take_bit 7 (take_bit 7 (s - b) + take_bit 7 v)"
    by (simp only: take_bit7_add)
  also have "\<dots> = take_bit 7 (take_bit 7 (s - b) + take_bit 7 b)"
    by (simp only: assms)
  also have "\<dots> = take_bit 7 ((s - b) + b)"
    by (simp only: take_bit7_add)
  finally show ?thesis by simp
qed


lemma unat_le16:
  fixes a b :: byte
  shows "unat ((ucast a :: 16 word) OR push_bit 8 (ucast b)) = unat a + 256 * unat b"
proof -
  have la: "unat a < 256" using unsigned_less [of a, where ?'a = nat] by simp
  have lb: "unat b < 256" using unsigned_less [of b, where ?'a = nat] by simp
  have a: "take_bit 8 (unat a) = unat a"
    using la by (simp add: take_bit_nat_eq_self)
  have "take_bit 8 (unat a) AND push_bit 8 (unat b) = 0"
    by (auto simp: bit_eq_iff bit_simps)
  then have d: "unat a AND push_bit 8 (unat b) = 0" using a by simp
  have ua: "unat (ucast a :: 16 word) = unat a"
    using la by (simp add: unsigned_ucast_eq take_bit_nat_eq_self)
  have ub: "unat (ucast b :: 16 word) = unat b"
    using lb by (simp add: unsigned_ucast_eq take_bit_nat_eq_self)
  have "push_bit 8 (unat b) < (65536::nat)" using lb by (simp add: push_bit_eq_mult)
  then have pb: "unat (push_bit 8 (ucast b :: 16 word)) = push_bit 8 (unat b)"
    by (simp add: unsigned_push_bit_eq ub take_bit_nat_eq_self)
  have "unat ((ucast a :: 16 word) OR push_bit 8 (ucast b)) =
      unat (ucast a :: 16 word) OR unat (push_bit 8 (ucast b :: 16 word))"
    by (rule unsigned_or_eq)
  also have "\<dots> = unat a OR push_bit 8 (unat b)"
    by (simp only: ua pb)
  also have "\<dots> = unat a + push_bit 8 (unat b)"
    using d by (simp add: disjunctive_add_eq_or)
  finally show ?thesis by (simp add: push_bit_eq_mult)
qed


lemma not_low7_top_clear: "(NOT a AND (0x7f::byte)) AND 0x80 = 0"
  using and_exp_eq_0_iff_not_bit [of "NOT a AND (0x7f::byte)" 7]
  unfolding mask7 by (simp add: bit_simps)

lemma map_bit_iff:
  "(b AND 1 \<noteq> 0) = bit (b::byte) 0" "(b AND 2 \<noteq> 0) = bit (b::byte) 1"
  "(b AND 4 \<noteq> 0) = bit (b::byte) 2" "(b AND 8 \<noteq> 0) = bit (b::byte) 3"
  using and_exp_eq_0_iff_not_bit [of b 0] and_exp_eq_0_iff_not_bit [of b 1]
    and_exp_eq_0_iff_not_bit [of b 2] and_exp_eq_0_iff_not_bit [of b 3]
  by simp_all

lemma sum_list_take_update:
  fixes xs :: "byte list"
  assumes "i < n" "n \<le> length xs"
  shows "sum_list (take n (xs[i := v])) = sum_list (take n xs) - xs ! i + v"
proof -
  let ?ys = "take n xs"
  have i: "i < length ?ys" using assms by simp
  have "take n (xs[i := v]) = ?ys[i := v]"
    by (rule take_update_swap)
  also have "\<dots> = take i ?ys @ v # drop (Suc i) ?ys"
    using i by (rule upd_conv_take_nth_drop)
  finally have a: "take n (xs[i := v]) = take i ?ys @ v # drop (Suc i) ?ys" .
  have b: "?ys = take i ?ys @ ?ys ! i # drop (Suc i) ?ys"
    using i by (rule id_take_nth_drop)
  have "sum_list ?ys = sum_list (take i ?ys) + ?ys ! i + sum_list (drop (Suc i) ?ys)"
    by (subst b) (simp add: add.assoc)
  moreover have "sum_list (take n (xs[i := v])) =
      sum_list (take i ?ys) + v + sum_list (drop (Suc i) ?ys)"
    by (simp add: a add.assoc)
  moreover have "?ys ! i = xs ! i" using assms by simp
  ultimately show ?thesis by simp
qed

subsection \<open>The checksum as a sum\<close>

lemma crc_loop_sum:
  "bound \<le> length buffer \<Longrightarrow> i \<le> bound \<Longrightarrow>
   crc_loop buffer bound i csum = Some (csum + sum_list (drop i (take bound buffer)))"
proof (induction buffer bound i csum rule: crc_loop.induct)
  case (1 buffer bound i csum)
  show ?case
  proof (cases "i < bound")
    case True
    then have il: "i < length buffer" using "1.prems" by simp
    have d: "drop i (take bound buffer) = buffer ! i # drop (Suc i) (take bound buffer)"
      using True il "1.prems" by (simp add: Cons_nth_drop_Suc [symmetric])
    show ?thesis
      using True il "1.IH" "1.prems" d
      by (subst crc_loop.simps) (simp add: add.assoc)
  next
    case False
    then show ?thesis using "1.prems"
      by (subst crc_loop.simps) simp
  qed
qed

lemma unat_len_pred: "len \<noteq> 0 \<Longrightarrow> unat (len - 1) = unat (len :: size_t) - 1"
  by (simp add: unat_minus_one)

lemma crc_value_eq:
  assumes "len \<noteq> 0" "unat len \<le> length buffer"
  shows "crc_value buffer len = Some (NOT (sum_list (take (unat len - 1) buffer)) AND 0x7f)"
  using assms crc_loop_sum [of "unat len - 1" buffer 0 0]
  by (simp add: crc_value_def unat_len_pred)

lemma vbus_crc_ok_eq:
  assumes "len \<noteq> 0" "unat len \<le> length buffer"
  shows "vbus_crc_ok buffer len =
     Some (buffer ! (unat len - 1) = NOT (sum_list (take (unat len - 1) buffer)) AND 0x7f)"
proof -
  have "unat len \<noteq> 0" using assms(1) by (simp add: unat_eq_0)
  then have "unat len - 1 < length buffer" using assms(2) by simp
  then show ?thesis
    using assms by (auto simp: vbus_crc_ok_def crc_value_eq unat_len_pred)
qed

lemma vbus_crc_ok_top_bit:
  assumes "len \<noteq> 0" "unat len \<le> length buffer" "buffer ! (unat len - 1) AND 0x80 \<noteq> 0"
  shows "vbus_crc_ok buffer len = Some False"
  using assms not_low7_top_clear [of "sum_list (take (unat len - 1) buffer)"]
  by (auto simp: vbus_crc_ok_eq)

subsection \<open>Calls\<close>

lemma call_sel [simp]:
  "input (call e w) = input w"
  "events (call e w) = events w @ [e]"
  "read_errno (call e w) = read_errno w"
  "errno_set (call e w) = errno_set w"
  "heap (call e w) = heap w"
  by (simp_all add: call_def emit_def)

subsection \<open>Reading a known prefix of the input\<close>

lemma consume_Nil [simp]: "consume sc [] w = w"
  by (simp add: consume_def)

lemma consume_append:
  "consume sc ys (consume sc xs w) = consume sc (xs @ ys) w"
  by (simp add: consume_def add.commute)

lemma input_consume: "input w = bs @ rest \<Longrightarrow> input (consume sc bs w) = rest"
  by (simp add: consume_def)

lemma vbus_getc_Cons:
  "input w = b # rest \<Longrightarrow> vbus_getc sc w = Ret b (consume sc [b] w)"
  by (simp add: vbus_getc_def consume_def emit_def call_def)

lemma wire_loop_clean:
  "input w = bs @ rest \<Longrightarrow> length bs = n \<Longrightarrow> wire_clean bs \<Longrightarrow>
   wire_loop n sc buffer w = Ret (Some (buffer @ bs)) (consume sc bs w)"
proof (induction n arbitrary: bs buffer w)
  case 0
  then show ?case by simp
next
  case (Suc n)
  then obtain b bs' where bs: "bs = b # bs'" by (cases bs) auto
  have g: "vbus_getc sc w = Ret b (consume sc [b] w)"
    using Suc.prems bs by (simp add: vbus_getc_Cons)
  have b: "b AND 0x80 = 0" using Suc.prems bs by (simp add: wire_clean_def)
  have "wire_loop n sc (buffer @ [b]) (consume sc [b] w) =
      Ret (Some ((buffer @ [b]) @ bs')) (consume sc bs' (consume sc [b] w))"
    using Suc.prems bs by (intro Suc.IH) (simp_all add: input_consume wire_clean_def)
  then show ?case using g b bs by (simp add: consume_append)
qed

lemma wire_loop_dirty:
  "input w = cl @ b # rest \<Longrightarrow> length cl < n \<Longrightarrow> wire_clean cl \<Longrightarrow> b AND 0x80 \<noteq> 0 \<Longrightarrow>
   wire_loop n sc buffer w = Ret None (consume sc (cl @ [b]) w)"
proof (induction n arbitrary: cl buffer w)
  case 0
  then show ?case by simp
next
  case (Suc n)
  show ?case
  proof (cases cl)
    case Nil
    then have "vbus_getc sc w = Ret b (consume sc [b] w)"
      using Suc.prems by (simp add: vbus_getc_Cons)
    then show ?thesis using Suc.prems Nil by simp
  next
    case (Cons c cl')
    have g: "vbus_getc sc w = Ret c (consume sc [c] w)"
      using Suc.prems Cons by (simp add: vbus_getc_Cons)
    have c: "c AND 0x80 = 0" using Suc.prems Cons by (simp add: wire_clean_def)
    have "wire_loop n sc (buffer @ [c]) (consume sc [c] w) =
        Ret None (consume sc (cl' @ [b]) (consume sc [c] w))"
      using Suc.prems Cons
      by (intro Suc.IH) (simp_all add: input_consume wire_clean_def)
    then show ?thesis using g c Cons by (simp add: consume_append)
  qed
qed

lemma vbus_read_frame_accept:
  assumes "input w = buffer @ rest" "length buffer = 6" "wire_clean buffer"
    and "vbus_crc_ok buffer 6 = Some True"
  shows "vbus_read_frame sc w = Ret (Some
     [if (buffer ! 0 OR (buffer ! 4 AND 1)) \<noteq> 0 then 0x80 else 0,
      if (buffer ! 1 OR (buffer ! 4 AND 2)) \<noteq> 0 then 0x80 else 0,
      if (buffer ! 2 OR (buffer ! 4 AND 4)) \<noteq> 0 then 0x80 else 0,
      if (buffer ! 3 OR (buffer ! 4 AND 8)) \<noteq> 0 then 0x80 else 0]) (consume sc buffer w)"
proof -
  have "wire_loop VBUS_WIRE_FRAME sc [] w = Ret (Some buffer) (consume sc buffer w)"
    using wire_loop_clean [OF assms(1) _ assms(3), of 6 sc "[]"] assms(2)
    by (simp add: VBUS_WIRE_FRAME_def)
  then show ?thesis using assms(2,4) by (simp add: vbus_read_frame_def)
qed

lemma vbus_read_frame_bad_crc:
  assumes "input w = buffer @ rest" "length buffer = 6" "wire_clean buffer"
    and "vbus_crc_ok buffer 6 = Some False"
  shows "vbus_read_frame sc w = Ret None (consume sc buffer w)"
proof -
  have "wire_loop VBUS_WIRE_FRAME sc [] w = Ret (Some buffer) (consume sc buffer w)"
    using wire_loop_clean [OF assms(1) _ assms(3), of 6 sc "[]"] assms(2)
    by (simp add: VBUS_WIRE_FRAME_def)
  then show ?thesis using assms(2,4) by (simp add: vbus_read_frame_def)
qed

lemma vbus_read_frame_dirty:
  assumes "input w = cl @ b # rest" "length cl < 6" "wire_clean cl" "b AND 0x80 \<noteq> 0"
  shows "vbus_read_frame sc w = Ret None (consume sc (cl @ [b]) w)"
proof -
  have "wire_loop VBUS_WIRE_FRAME sc [] w = Ret None (consume sc (cl @ [b]) w)"
    using wire_loop_dirty [OF assms(1) _ assms(3,4), of 6 sc "[]"] assms(2)
    by (simp add: VBUS_WIRE_FRAME_def)
  then show ?thesis by (simp add: vbus_read_frame_def)
qed

lemma vbus_parse_header_bad_crc:
  "vbus_crc_ok buffer 9 = Some False \<Longrightarrow> vbus_parse_header buffer w = Ret None w"
  by (simp add: vbus_parse_header_def VBUS_WIRE_HDR_def)

lemma vbus_parse_header_ok:
  assumes "vbus_crc_ok buffer 9 = Some True"
  shows "vbus_parse_header buffer w = 
    (case heap w 0 (8 + 4 * unat (buffer ! 7)) of
       None \<Rightarrow> Ret None (w\<lparr>heap := (\<lambda>k. heap w (Suc k))\<rparr>)
     | Some junk \<Rightarrow> Ret (Some \<lparr>
                   dst = ucast (buffer ! 0) OR push_bit 8 (ucast (buffer ! 1)),
                   src = ucast (buffer ! 2) OR push_bit 8 (ucast (buffer ! 3)),
                   cmd = ucast (buffer ! 5) OR push_bit 8 (ucast (buffer ! 6)),
                   proto = buffer ! 4,
                   frames = buffer ! 7,
                   aux_data = map junk [0 ..< 4 * unat (buffer ! 7)]\<rparr>) (w\<lparr>heap := (\<lambda>k. heap w (Suc k))\<rparr>))"
  using assms by (simp add: vbus_parse_header_def VBUS_WIRE_HDR_def malloc_def split: option.splits)

lemma first_dirty:
  assumes "\<not> wire_clean bs"
  shows "\<exists>cl b rest. bs = cl @ b # rest \<and> wire_clean cl \<and> b AND 0x80 \<noteq> 0"
proof -
  from assms have "\<exists>b\<in>set bs. b AND 0x80 \<noteq> 0" by (simp add: wire_clean_def)
  then obtain cl b rest where "bs = cl @ b # rest" "b AND 0x80 \<noteq> 0"
    "\<forall>c\<in>set cl. \<not> c AND 0x80 \<noteq> 0"
    by (auto simp: split_list_first_prop_iff)
  then show ?thesis by (auto simp: wire_clean_def)
qed

lemma vbus_getc_Nil:
  "input w = [] \<Longrightarrow> vbus_getc sc w = Exit 0 (read_fails sc w)"
  by (simp add: vbus_getc_def vbus_fini_def read_fails_def)

lemma consume_all_input [simp]: "input (consume sc (input w) w) = []"
  by (simp add: consume_def)

lemma wire_loop_eof:
  "length (input w) < n \<Longrightarrow> wire_clean (input w) \<Longrightarrow>
   wire_loop n sc buffer w = Exit 0 (read_fails sc (consume sc (input w) w))"
proof (induction n arbitrary: buffer w)
  case 0
  then show ?case by simp
next
  case (Suc n)
  show ?case
  proof (cases "input w")
    case Nil
    then show ?thesis by (simp add: vbus_getc_Nil)
  next
    case (Cons c cs)
    have g: "vbus_getc sc w = Ret c (consume sc [c] w)"
      using Cons by (simp add: vbus_getc_Cons)
    have c: "c AND 0x80 = 0" using Suc.prems Cons by (simp add: wire_clean_def)
    have i: "input (consume sc [c] w) = cs" using Cons by (simp add: input_consume)
    have "wire_loop n sc (buffer @ [c]) (consume sc [c] w) =
        Exit 0 (read_fails sc (consume sc (input (consume sc [c] w)) (consume sc [c] w)))"
      using Suc.prems Cons i by (intro Suc.IH) (simp_all add: wire_clean_def)
    then show ?thesis using g c Cons i by (simp add: consume_append)
  qed
qed

lemma sync_loop_found:
  "input w = pre @ VBUS_SYNC # rest \<Longrightarrow> VBUS_SYNC \<notin> set pre \<Longrightarrow>
   sync_loop sc w = Ret () (consume sc (pre @ [VBUS_SYNC]) w)"
proof (induction pre arbitrary: w)
  case Nil
  then have "vbus_getc sc w = Ret VBUS_SYNC (consume sc [VBUS_SYNC] w)"
    by (simp add: vbus_getc_Cons)
  then show ?case by (subst sync_loop.simps) simp
next
  case (Cons c pre)
  have g: "vbus_getc sc w = Ret c (consume sc [c] w)"
    using Cons.prems by (simp add: vbus_getc_Cons)
  have c: "c \<noteq> VBUS_SYNC" using Cons.prems by auto
  have "sync_loop sc (consume sc [c] w) =
      Ret () (consume sc (pre @ [VBUS_SYNC]) (consume sc [c] w))"
    using Cons.prems by (intro Cons.IH) (simp_all add: input_consume)
  then show ?case using g c
    by (subst sync_loop.simps) (simp add: consume_append)
qed

lemma sync_loop_eof:
  "VBUS_SYNC \<notin> set (input w) \<Longrightarrow>
   sync_loop sc w = Exit 0 (read_fails sc (consume sc (input w) w))"
proof (induction "input w" arbitrary: w)
  case Nil
  then show ?case by (subst sync_loop.simps) (simp add: vbus_getc_Nil)
next
  case (Cons c cs)
  have inp: "input w = c # cs" using Cons.hyps(2) by simp
  have g: "vbus_getc sc w = Ret c (consume sc [c] w)"
    using inp by (simp add: vbus_getc_Cons)
  have c: "c \<noteq> VBUS_SYNC" using Cons.prems inp by auto
  have i: "input (consume sc [c] w) = cs" using inp by (simp add: input_consume)
  have "sync_loop sc (consume sc [c] w) =
      Exit 0 (read_fails sc (consume sc (input (consume sc [c] w)) (consume sc [c] w)))"
    using Cons.prems inp i by (intro Cons.hyps(1)) simp_all
  then show ?case using g c inp i
    by (subst sync_loop.simps) (simp add: consume_append)
qed

lemma vbus_read_frame_eof:
  assumes "length (input w) < 6" "wire_clean (input w)"
  shows "vbus_read_frame sc w = Exit 0 (read_fails sc (consume sc (input w) w))"
  using wire_loop_eof [OF _ assms(2), of 6 sc "[]"] assms(1)
  by (simp add: vbus_read_frame_def VBUS_WIRE_FRAME_def)

lemma vbus_read_frame_valid:
  assumes "input w = f @ rest" "valid_frame f"
  shows "vbus_read_frame sc w = Ret (Some (frame_bytes f)) (consume sc f w)"
  using assms vbus_read_frame_accept [of w f rest sc]
  by (simp add: valid_frame_def frame_bytes_def)

lemma vbus_read_frame_bad:
  assumes "input w = f @ rest" "bad_frame f"
  shows "vbus_read_frame sc w = Ret None (consume sc f w)"
proof -
  from assms(2) consider
      (crc) "length f = 6" "wire_clean f" "vbus_crc_ok f 6 = Some False"
    | (dirty) "f \<noteq> []" "length f \<le> 6" "wire_clean (butlast f)" "last f AND 0x80 \<noteq> 0"
    by (auto simp: bad_frame_def)
  then show ?thesis
  proof cases
    case crc
    with assms(1) show ?thesis by (intro vbus_read_frame_bad_crc)
  next
    case dirty
    then have f: "f = butlast f @ [last f]" by simp
    have "input w = butlast f @ last f # rest"
      using assms(1) by (subst (asm) f) simp
    moreover have "length (butlast f) < 6" using dirty by (cases f) auto
    ultimately have "vbus_read_frame sc w = Ret None (consume sc (butlast f @ [last f]) w)"
      using dirty by (intro vbus_read_frame_dirty)
    then show ?thesis using f by simp
  qed
qed

subsection \<open>The frames of a packet\<close>

lemma frames_loop_valid:
  assumes "input w = concat fs @ rest" and "\<forall>f\<in>set fs. valid_frame f"
    and "i + length fs = unat (frames pkt)"
    and "length (aux_data pkt) = 4 * unat (frames pkt)"
  shows "frames_loop sc pkt i w =
     Ret (Some (pkt\<lparr>aux_data := store_frames (aux_data pkt) i fs\<rparr>)) (consume sc (concat fs) w)"
  using assms
proof (induction fs arbitrary: pkt i w)
  case Nil
  then show ?case by (subst frames_loop.simps) simp
next
  case (Cons f fs)
  let ?aux = "(aux_data pkt)
                  [i * VBUS_FRAME_LEN := frame_bytes f ! 0,
                   i * VBUS_FRAME_LEN + 1 := frame_bytes f ! 1,
                   i * VBUS_FRAME_LEN + 2 := frame_bytes f ! 2,
                   i * VBUS_FRAME_LEN + 3 := frame_bytes f ! 3]"
  let ?pkt = "pkt\<lparr>aux_data := ?aux\<rparr>"
  have lt: "i < unat (frames pkt)" using Cons.prems by simp
  have inb: "i * VBUS_FRAME_LEN + 4 \<le> length (aux_data pkt)"
    using lt Cons.prems by (simp add: VBUS_FRAME_LEN_def)
  have f: "valid_frame f" using Cons.prems by simp
  have r: "vbus_read_frame sc w = Ret (Some (frame_bytes f)) (consume sc f w)"
    using Cons.prems(1) f by (intro vbus_read_frame_valid [where rest = "concat fs @ rest"]) simp
  have i: "input (consume sc f w) = concat fs @ rest"
    using Cons.prems(1) by (intro input_consume) simp
  have "frames_loop sc ?pkt (Suc i) (consume sc f w) =
     Ret (Some (?pkt\<lparr>aux_data := store_frames (aux_data ?pkt) (Suc i) fs\<rparr>))
       (consume sc (concat fs) (consume sc f w))"
    using Cons.prems i by (intro Cons.IH) simp_all
  then show ?case using lt inb r
    by (subst frames_loop.simps) (simp add: consume_append)
qed

lemma frames_loop_bad:
  assumes "input w = concat fs @ bad @ rest" and "\<forall>f\<in>set fs. valid_frame f"
    and "bad_frame bad"
    and "i + length fs < unat (frames pkt)"
    and "length (aux_data pkt) = 4 * unat (frames pkt)"
  shows "frames_loop sc pkt i w = Ret None (consume sc (concat fs @ bad) w)"
  using assms
proof (induction fs arbitrary: pkt i w)
  case Nil
  then have "vbus_read_frame sc w = Ret None (consume sc bad w)"
    by (intro vbus_read_frame_bad [where rest = rest]) simp_all
  then show ?case using Nil.prems by (subst frames_loop.simps) simp
next
  case (Cons f fs)
  let ?aux = "(aux_data pkt)
                  [i * VBUS_FRAME_LEN := frame_bytes f ! 0,
                   i * VBUS_FRAME_LEN + 1 := frame_bytes f ! 1,
                   i * VBUS_FRAME_LEN + 2 := frame_bytes f ! 2,
                   i * VBUS_FRAME_LEN + 3 := frame_bytes f ! 3]"
  let ?pkt = "pkt\<lparr>aux_data := ?aux\<rparr>"
  have lt: "i < unat (frames pkt)" using Cons.prems by simp
  have inb: "i * VBUS_FRAME_LEN + 4 \<le> length (aux_data pkt)"
    using lt Cons.prems by (simp add: VBUS_FRAME_LEN_def)
  have f: "valid_frame f" using Cons.prems by simp
  have r: "vbus_read_frame sc w = Ret (Some (frame_bytes f)) (consume sc f w)"
    using Cons.prems(1) f
    by (intro vbus_read_frame_valid [where rest = "concat fs @ bad @ rest"]) simp
  have i: "input (consume sc f w) = concat fs @ bad @ rest"
    using Cons.prems(1) by (intro input_consume) simp
  have "frames_loop sc ?pkt (Suc i) (consume sc f w) =
     Ret None (consume sc (concat fs @ bad) (consume sc f w))"
    using Cons.prems i by (intro Cons.IH) simp_all
  then show ?case using lt inb r
    by (subst frames_loop.simps) (simp add: consume_append)
qed

lemma frames_loop_eof:
  assumes "input w = concat fs @ tail" and "\<forall>f\<in>set fs. valid_frame f"
    and "length tail < 6" and "wire_clean tail"
    and "i + length fs < unat (frames pkt)"
    and "length (aux_data pkt) = 4 * unat (frames pkt)"
  shows "frames_loop sc pkt i w = Exit 0 (read_fails sc (consume sc (input w) w))"
  using assms
proof (induction fs arbitrary: pkt i w)
  case Nil
  then have "vbus_read_frame sc w = Exit 0 (read_fails sc (consume sc (input w) w))"
    by (intro vbus_read_frame_eof) simp_all
  then show ?case using Nil.prems by (subst frames_loop.simps) simp
next
  case (Cons f fs)
  let ?aux = "(aux_data pkt)
                  [i * VBUS_FRAME_LEN := frame_bytes f ! 0,
                   i * VBUS_FRAME_LEN + 1 := frame_bytes f ! 1,
                   i * VBUS_FRAME_LEN + 2 := frame_bytes f ! 2,
                   i * VBUS_FRAME_LEN + 3 := frame_bytes f ! 3]"
  let ?pkt = "pkt\<lparr>aux_data := ?aux\<rparr>"
  let ?w = "consume sc f w"
  have lt: "i < unat (frames pkt)" using Cons.prems by simp
  have inb: "i * VBUS_FRAME_LEN + 4 \<le> length (aux_data pkt)"
    using lt Cons.prems by (simp add: VBUS_FRAME_LEN_def)
  have f: "valid_frame f" using Cons.prems by simp
  have r: "vbus_read_frame sc w = Ret (Some (frame_bytes f)) ?w"
    using Cons.prems(1) f
    by (intro vbus_read_frame_valid [where rest = "concat fs @ tail"]) simp
  have i: "input ?w = concat fs @ tail"
    using Cons.prems(1) by (intro input_consume) simp
  have "frames_loop sc ?pkt (Suc i) ?w = Exit 0 (read_fails sc (consume sc (input ?w) ?w))"
    using Cons.prems i by (intro Cons.IH) simp_all
  moreover have "consume sc (input ?w) ?w = consume sc (input w) w"
    using i Cons.prems(1) by (simp add: consume_append)
  ultimately show ?case using lt inb r
    by (subst frames_loop.simps) simp
qed

subsection \<open>Every input is of one of the shapes above\<close>

lemma wire_shapes:
  "(\<exists>bs rest. xs = bs @ rest \<and> length bs = n \<and> wire_clean bs)
   \<or> (\<exists>cl d rest. xs = cl @ d # rest \<and> length cl < n \<and> wire_clean cl \<and> d AND 0x80 \<noteq> 0)
   \<or> (length xs < n \<and> wire_clean xs)"
proof (cases "wire_clean (take n xs)")
  case True
  show ?thesis
  proof (cases "n \<le> length xs")
    case le: True
    have "xs = take n xs @ drop n xs" by simp
    moreover have "length (take n xs) = n" using le by simp
    ultimately show ?thesis using True by blast
  next
    case False
    then show ?thesis using True by simp
  qed
next
  case False
  then obtain cl d r where s: "take n xs = cl @ d # r" "wire_clean cl" "d AND 0x80 \<noteq> 0"
    using first_dirty by blast
  have "length (take n xs) \<le> n" by simp
  then have "length cl < n" unfolding s by simp
  moreover have "xs = cl @ d # (r @ drop n xs)"
    using append_take_drop_id [of n xs] unfolding s by simp
  ultimately show ?thesis using s by blast
qed

lemma frame_shapes:
  "(\<exists>f rest. xs = f @ rest \<and> valid_frame f)
   \<or> (\<exists>bad rest. xs = bad @ rest \<and> bad_frame bad)
   \<or> (length xs < 6 \<and> wire_clean xs)"
proof -
  consider
      (full) bs rest where "xs = bs @ rest" "length bs = 6" "wire_clean bs"
    | (dirty) cl d rest where "xs = cl @ d # rest" "length cl < 6" "wire_clean cl" "d AND 0x80 \<noteq> 0"
    | (short) "length xs < 6" "wire_clean xs"
    using wire_shapes [of xs 6] by blast
  then show ?thesis
  proof cases
    case full
    then have "vbus_crc_ok bs 6 = Some True \<or> vbus_crc_ok bs 6 = Some False"
      by (simp add: vbus_crc_ok_eq)
    then show ?thesis using full by (auto simp: valid_frame_def bad_frame_def)
  next
    case dirty
    have "bad_frame (cl @ [d])" using dirty by (simp add: bad_frame_def)
    moreover have "xs = (cl @ [d]) @ rest" using dirty by simp
    ultimately show ?thesis by blast
  next
    case short
    then show ?thesis by simp
  qed
qed

lemma frames_shapes:
  "(\<exists>fs rest. xs = concat fs @ rest \<and> length fs = m \<and> (\<forall>f\<in>set fs. valid_frame f))
   \<or> (\<exists>fs bad rest. xs = concat fs @ bad @ rest \<and> length fs < m \<and>
         (\<forall>f\<in>set fs. valid_frame f) \<and> bad_frame bad)
   \<or> (\<exists>fs tail. xs = concat fs @ tail \<and> length fs < m \<and> (\<forall>f\<in>set fs. valid_frame f) \<and>
         length tail < 6 \<and> wire_clean tail)"
proof (induction m arbitrary: xs)
  case 0
  have "xs = concat [] @ xs" by simp
  then show ?case by (intro disjI1 exI [of _ "[]"] exI [of _ xs]) simp
next
  case (Suc m)
  consider
      (valid) f rest where "xs = f @ rest" "valid_frame f"
    | (bad) bad rest where "xs = bad @ rest" "bad_frame bad"
    | (short) "length xs < 6" "wire_clean xs"
    using frame_shapes [of xs] by blast
  then show ?case
  proof cases
    case valid
    from Suc.IH [of rest] consider
        (a) fs r where "rest = concat fs @ r" "length fs = m" "\<forall>f\<in>set fs. valid_frame f"
      | (b) fs bad r where "rest = concat fs @ bad @ r" "length fs < m"
          "\<forall>f\<in>set fs. valid_frame f" "bad_frame bad"
      | (c) fs tail where "rest = concat fs @ tail" "length fs < m" "\<forall>f\<in>set fs. valid_frame f"
          "length tail < 6" "wire_clean tail"
      by blast
    then show ?thesis
    proof cases
      case a
      have "xs = concat (f # fs) @ r" using valid a by simp
      moreover have "length (f # fs) = Suc m" using a by simp
      moreover have "\<forall>g\<in>set (f # fs). valid_frame g" using valid a by simp
      ultimately show ?thesis by blast
    next
      case b
      have "xs = concat (f # fs) @ bad @ r" using valid b by simp
      moreover have "length (f # fs) < Suc m" using b by simp
      moreover have "\<forall>g\<in>set (f # fs). valid_frame g" using valid b by simp
      ultimately show ?thesis using b(4) by blast
    next
      case c
      have "xs = concat (f # fs) @ tail" using valid c by simp
      moreover have "length (f # fs) < Suc m" using c by simp
      moreover have "\<forall>g\<in>set (f # fs). valid_frame g" using valid c by simp
      ultimately show ?thesis using c(4,5) by blast
    qed
  next
    case bad
    have "xs = concat [] @ bad @ rest" using bad by simp
    then show ?thesis using bad(2)
      by (intro disjI2 disjI1 exI [of _ "[]"] exI [of _ bad] exI [of _ rest]) simp
  next
    case short
    have "xs = concat [] @ xs" by simp
    then show ?thesis using short
      by (intro disjI2 exI [of _ "[]"] exI [of _ xs]) simp
  qed
qed

subsection \<open>One pass of the worker loop\<close>

lemma vbus_parse_header_valid:
  assumes "valid_header hdr"
  shows "vbus_parse_header hdr w =
    (case heap w 0 (8 + 4 * unat (hdr ! 7)) of
       None \<Rightarrow> Ret None (heap_next w)
     | Some junk \<Rightarrow> Ret (Some (header_pkt hdr junk)) (heap_next w))"
  using assms
  by (simp add: valid_header_def vbus_parse_header_ok header_pkt_def heap_next_def
      split: option.splits)

lemma input_heap_next [simp]: "input (heap_next w) = input w"
  by (simp add: heap_next_def)

lemma events_heap_next [simp]: "events (heap_next w) = events w"
  by (simp add: heap_next_def)

lemma header_pkt_sel [simp]:
  "frames (header_pkt hdr junk) = hdr ! 7"
  "length (aux_data (header_pkt hdr junk)) = 4 * unat (hdr ! 7)"
  by (simp_all add: header_pkt_def)

lemma thread_loop_no_sync:
  assumes "VBUS_SYNC \<notin> set (input w)"
  shows "thread_loop sc w = Exit 0 (read_fails sc (consume sc (input w) w))"
  using sync_loop_eof [OF assms, of sc] by (subst thread_loop.simps) simp

lemma thread_loop_hdr_eof:
  assumes inp: "input w = pre @ VBUS_SYNC # r" and pre: "VBUS_SYNC \<notin> set pre"
    and r: "length r < 9" "wire_clean r"
  shows "thread_loop sc w = Exit 0 (read_fails sc (consume sc (input w) w))"
proof -
  let ?w1 = "consume sc (pre @ [VBUS_SYNC]) w"
  have s: "sync_loop sc w = Ret () ?w1" using inp pre by (rule sync_loop_found)
  have i1: "input ?w1 = r" using inp by (intro input_consume) simp
  have "wire_loop VBUS_WIRE_HDR sc [] ?w1 = Exit 0 (read_fails sc (consume sc (input ?w1) ?w1))"
    using r i1 by (intro wire_loop_eof) (simp_all add: VBUS_WIRE_HDR_def)
  moreover have "consume sc (input ?w1) ?w1 = consume sc (input w) w"
    using i1 inp by (simp add: consume_append)
  ultimately show ?thesis using s by (subst thread_loop.simps) simp
qed

lemma thread_loop_hdr_dirty:
  assumes inp: "input w = pre @ VBUS_SYNC # cl @ d # rest" and pre: "VBUS_SYNC \<notin> set pre"
    and cl: "length cl < 9" "wire_clean cl" and d: "d AND 0x80 \<noteq> 0"
  shows "thread_loop sc w = thread_loop sc (consume sc (pre @ VBUS_SYNC # cl @ [d]) w)"
proof -
  let ?w1 = "consume sc (pre @ [VBUS_SYNC]) w"
  have s: "sync_loop sc w = Ret () ?w1" using inp pre by (rule sync_loop_found)
  have i1: "input ?w1 = cl @ d # rest" using inp by (intro input_consume) simp
  have "wire_loop VBUS_WIRE_HDR sc [] ?w1 = Ret None (consume sc (cl @ [d]) ?w1)"
    using i1 cl d by (intro wire_loop_dirty) (simp_all add: VBUS_WIRE_HDR_def)
  then show ?thesis using s by (subst thread_loop.simps) (simp add: consume_append)
qed

lemma thread_loop_hdr_read:
  assumes inp: "input w = pre @ VBUS_SYNC # hdr @ rest" and pre: "VBUS_SYNC \<notin> set pre"
    and hdr: "length hdr = 9" "wire_clean hdr"
  shows "sync_loop sc w = Ret () (consume sc (pre @ [VBUS_SYNC]) w)"
    and "wire_loop VBUS_WIRE_HDR sc [] (consume sc (pre @ [VBUS_SYNC]) w) =
           Ret (Some hdr) (consume sc (pre @ VBUS_SYNC # hdr) w)"
proof -
  let ?w1 = "consume sc (pre @ [VBUS_SYNC]) w"
  show "sync_loop sc w = Ret () ?w1" using inp pre by (rule sync_loop_found)
  have i1: "input ?w1 = hdr @ rest" using inp by (intro input_consume) simp
  have "wire_loop VBUS_WIRE_HDR sc [] ?w1 = Ret (Some ([] @ hdr)) (consume sc hdr ?w1)"
    using i1 hdr by (intro wire_loop_clean) (simp_all add: VBUS_WIRE_HDR_def)
  then show "wire_loop VBUS_WIRE_HDR sc [] ?w1 = Ret (Some hdr) (consume sc (pre @ VBUS_SYNC # hdr) w)"
    by (simp add: consume_append)
qed

lemma thread_loop_hdr_bad_crc:
  assumes inp: "input w = pre @ VBUS_SYNC # hdr @ rest" and pre: "VBUS_SYNC \<notin> set pre"
    and hdr: "length hdr = 9" "wire_clean hdr" and crc: "vbus_crc_ok hdr 9 = Some False"
  shows "thread_loop sc w = thread_loop sc (consume sc (pre @ VBUS_SYNC # hdr) w)"
  using thread_loop_hdr_read [OF inp pre hdr, of sc] vbus_parse_header_bad_crc [OF crc]
  by (subst thread_loop.simps) simp

lemma thread_loop_no_memory:
  assumes inp: "input w = pre @ VBUS_SYNC # hdr @ rest" and pre: "VBUS_SYNC \<notin> set pre"
    and hdr: "valid_header hdr" and mem: "heap w 0 (8 + 4 * unat (hdr ! 7)) = None"
  shows "thread_loop sc w = thread_loop sc (heap_next (consume sc (pre @ VBUS_SYNC # hdr) w))"
proof -
  let ?w2 = "consume sc (pre @ VBUS_SYNC # hdr) w"
  have h: "length hdr = 9" "wire_clean hdr" using hdr by (simp_all add: valid_header_def)
  have "heap ?w2 = heap w" by (simp add: consume_def)
  then have "vbus_parse_header hdr ?w2 = Ret None (heap_next ?w2)"
    using mem by (simp add: vbus_parse_header_valid [OF hdr])
  then show ?thesis
    using thread_loop_hdr_read [OF inp pre h, of sc] by (subst thread_loop.simps) simp
qed

lemma thread_loop_parsed:
  assumes inp: "input w = pre @ VBUS_SYNC # hdr @ rest" and pre: "VBUS_SYNC \<notin> set pre"
    and hdr: "valid_header hdr" and mem: "heap w 0 (8 + 4 * unat (hdr ! 7)) = Some junk"
  shows "thread_loop sc w =
     (case frames_loop sc (header_pkt hdr junk) 0
             (heap_next (consume sc (pre @ VBUS_SYNC # hdr) w)) of
        Exit rv w4 \<Rightarrow> Exit rv w4
      | Fault w4 \<Rightarrow> Fault w4
      | Ret None w4 \<Rightarrow> thread_loop sc w4
      | Ret (Some pkt') w4 \<Rightarrow>
          if filter_fn sc then thread_loop sc (call (Filter (argp sc) (Some pkt')) w4)
          else Fault w4)"
proof -
  let ?w2 = "consume sc (pre @ VBUS_SYNC # hdr) w"
  have h: "length hdr = 9" "wire_clean hdr" using hdr by (simp_all add: valid_header_def)
  have "heap ?w2 = heap w" by (simp add: consume_def)
  then have "vbus_parse_header hdr ?w2 = Ret (Some (header_pkt hdr junk)) (heap_next ?w2)"
    using mem by (simp add: vbus_parse_header_valid [OF hdr])
  then show ?thesis
    using thread_loop_hdr_read [OF inp pre h, of sc] by (subst thread_loop.simps) simp
qed

lemma thread_loop_delivers:
  assumes inp: "input w = pre @ VBUS_SYNC # hdr @ concat fs @ post"
    and pre: "VBUS_SYNC \<notin> set pre"
    and hdr: "valid_header hdr" and mem: "heap w 0 (8 + 4 * unat (hdr ! 7)) = Some junk"
    and fs: "length fs = unat (hdr ! 7)" "\<forall>f\<in>set fs. valid_frame f"
    and flt: "filter_fn sc"
  shows "thread_loop sc w =
     thread_loop sc
       (call (Filter (argp sc)
           (Some ((header_pkt hdr junk)
              \<lparr>aux_data := store_frames (aux_data (header_pkt hdr junk)) 0 fs\<rparr>)))
         (consume sc (concat fs) (heap_next (consume sc (pre @ VBUS_SYNC # hdr) w))))"
proof -
  let ?w3 = "heap_next (consume sc (pre @ VBUS_SYNC # hdr) w)"
  have "input (consume sc (pre @ VBUS_SYNC # hdr) w) = concat fs @ post"
    using inp by (intro input_consume) simp
  then have i3: "input ?w3 = concat fs @ post" by simp
  have "frames_loop sc (header_pkt hdr junk) 0 ?w3 =
      Ret (Some ((header_pkt hdr junk)
              \<lparr>aux_data := store_frames (aux_data (header_pkt hdr junk)) 0 fs\<rparr>))
        (consume sc (concat fs) ?w3)"
    using i3 fs by (intro frames_loop_valid) simp_all
  then show ?thesis
    using flt by (simp add: thread_loop_parsed [OF inp pre hdr mem])
qed

lemma thread_loop_frame_bad:
  assumes inp: "input w = pre @ VBUS_SYNC # hdr @ concat fs @ bad @ post"
    and pre: "VBUS_SYNC \<notin> set pre"
    and hdr: "valid_header hdr" and mem: "heap w 0 (8 + 4 * unat (hdr ! 7)) = Some junk"
    and fs: "length fs < unat (hdr ! 7)" "\<forall>f\<in>set fs. valid_frame f"
    and bad: "bad_frame bad"
  shows "thread_loop sc w =
     thread_loop sc
       (consume sc (concat fs @ bad) (heap_next (consume sc (pre @ VBUS_SYNC # hdr) w)))"
proof -
  let ?w3 = "heap_next (consume sc (pre @ VBUS_SYNC # hdr) w)"
  have "input (consume sc (pre @ VBUS_SYNC # hdr) w) = concat fs @ bad @ post"
    using inp by (intro input_consume) simp
  then have i3: "input ?w3 = concat fs @ bad @ post" by simp
  have "frames_loop sc (header_pkt hdr junk) 0 ?w3 = Ret None (consume sc (concat fs @ bad) ?w3)"
    using i3 fs bad by (intro frames_loop_bad) simp_all
  then show ?thesis
    by (simp add: thread_loop_parsed [OF inp pre hdr mem])
qed

lemma thread_loop_frames_eof:
  assumes inp: "input w = pre @ VBUS_SYNC # hdr @ concat fs @ tail"
    and pre: "VBUS_SYNC \<notin> set pre"
    and hdr: "valid_header hdr" and mem: "heap w 0 (8 + 4 * unat (hdr ! 7)) = Some junk"
    and fs: "length fs < unat (hdr ! 7)" "\<forall>f\<in>set fs. valid_frame f"
    and tail: "length tail < 6" "wire_clean tail"
  shows "thread_loop sc w =
     Exit 0 (read_fails sc
       (consume sc (concat fs @ tail) (heap_next (consume sc (pre @ VBUS_SYNC # hdr) w))))"
proof -
  let ?w3 = "heap_next (consume sc (pre @ VBUS_SYNC # hdr) w)"
  have "input (consume sc (pre @ VBUS_SYNC # hdr) w) = concat fs @ tail"
    using inp by (intro input_consume) simp
  then have i3: "input ?w3 = concat fs @ tail" by simp
  have "frames_loop sc (header_pkt hdr junk) 0 ?w3 =
      Exit 0 (read_fails sc (consume sc (input ?w3) ?w3))"
    using i3 fs tail by (intro frames_loop_eof) simp_all
  then show ?thesis
    using i3 by (simp add: thread_loop_parsed [OF inp pre hdr mem])
qed

subsection \<open>The payload\<close>

lemma take_store4:
  assumes "n + 4 \<le> length aux"
  shows "take (n + 4) (aux[n := a, n + 1 := b, n + 2 := c, n + 3 := d]) = take n aux @ [a, b, c, d]"
proof (rule nth_equalityI)
  show "length (take (n + 4) (aux[n := a, n + 1 := b, n + 2 := c, n + 3 := d])) =
      length (take n aux @ [a, b, c, d])"
    using assms by simp
next
  fix k
  assume "k < length (take (n + 4) (aux[n := a, n + 1 := b, n + 2 := c, n + 3 := d]))"
  then have k: "k < n + 4" by simp
  then consider "k < n" | "k = n" | "k = n + 1" | "k = n + 2" | "k = n + 3" by linarith
  then show "take (n + 4) (aux[n := a, n + 1 := b, n + 2 := c, n + 3 := d]) ! k =
      (take n aux @ [a, b, c, d]) ! k"
    using assms by cases (simp_all add: nth_append)
qed

lemma length_frame_bytes [simp]: "length (frame_bytes f) = 4"
  by (simp add: frame_bytes_def)

lemma frame_bytes_nths: "[frame_bytes f ! 0, frame_bytes f ! 1, frame_bytes f ! 2, frame_bytes f ! 3] = frame_bytes f"
  by (simp add: frame_bytes_def)

lemma length_store_frames [simp]: "length (store_frames aux i fs) = length aux"
  by (induction fs arbitrary: aux i) simp_all

lemma take_store_frame:
  assumes "i * VBUS_FRAME_LEN + 4 \<le> length aux"
  shows "take (4 * Suc i)
           (aux[i * VBUS_FRAME_LEN := frame_bytes f ! 0,
                i * VBUS_FRAME_LEN + 1 := frame_bytes f ! 1,
                i * VBUS_FRAME_LEN + 2 := frame_bytes f ! 2,
                i * VBUS_FRAME_LEN + 3 := frame_bytes f ! 3]) =
         take (4 * i) aux @ frame_bytes f"
proof -
  have n: "i * VBUS_FRAME_LEN = 4 * i" by (simp add: VBUS_FRAME_LEN_def)
  have s: "4 * Suc i = 4 * i + 4" by simp
  have "take (4 * i + 4)
           (aux[4 * i := frame_bytes f ! 0, 4 * i + 1 := frame_bytes f ! 1,
                4 * i + 2 := frame_bytes f ! 2, 4 * i + 3 := frame_bytes f ! 3]) =
         take (4 * i) aux @
           [frame_bytes f ! 0, frame_bytes f ! 1, frame_bytes f ! 2, frame_bytes f ! 3]"
    using assms unfolding n by (rule take_store4)
  then show ?thesis unfolding n s frame_bytes_nths .
qed

lemma store_frames_concat:
  "4 * (i + length fs) \<le> length aux \<Longrightarrow>
   take (4 * (i + length fs)) (store_frames aux i fs) = take (4 * i) aux @ concat (map frame_bytes fs)"
proof (induction fs arbitrary: aux i)
  case Nil
  then show ?case by simp
next
  case (Cons f fs)
  let ?aux = "aux[i * VBUS_FRAME_LEN := frame_bytes f ! 0,
            i * VBUS_FRAME_LEN + 1 := frame_bytes f ! 1,
            i * VBUS_FRAME_LEN + 2 := frame_bytes f ! 2,
            i * VBUS_FRAME_LEN + 3 := frame_bytes f ! 3]"
  have "take (4 * (Suc i + length fs)) (store_frames ?aux (Suc i) fs) =
      take (4 * Suc i) ?aux @ concat (map frame_bytes fs)"
    using Cons.prems by (intro Cons.IH) simp
  moreover have "take (4 * Suc i) ?aux = take (4 * i) aux @ frame_bytes f"
    using Cons.prems by (intro take_store_frame) (simp add: VBUS_FRAME_LEN_def)
  moreover have "i + length (f # fs) = Suc i + length fs" by simp
  ultimately show ?case by (simp del: mult_Suc_right take_Cons' add: add.commute)
qed

lemma store_frames_all:
  assumes "length aux = 4 * length fs"
  shows "store_frames aux 0 fs = concat (map frame_bytes fs)"
  using store_frames_concat [of 0 fs aux] assms by simp

lemma header_pkt_stored:
  assumes "length fs = unat (hdr ! 7)"
  shows "(header_pkt hdr junk)\<lparr>aux_data := store_frames (aux_data (header_pkt hdr junk)) 0 fs\<rparr>
     = decoded_pkt hdr fs"
proof -
  have "store_frames (aux_data (header_pkt hdr junk)) 0 fs = concat (map frame_bytes fs)"
    using assms by (intro store_frames_all) simp
  then show ?thesis by (simp add: header_pkt_def decoded_pkt_def)
qed

subsection \<open>Quiet steps\<close>

lemma quiet_trans: "quiet sc w w1 \<Longrightarrow> quiet sc w1 w2 \<Longrightarrow> quiet sc w w2"
proof -
  assume a: "quiet sc w w1" and b: "quiet sc w1 w2"
  from a obtain bs where bs: "input w = bs @ input w1"
    "events w1 = events w @ map (\<lambda>b. Read (fd sc) (Some b)) bs"
    by (auto simp: quiet_def)
  from b obtain cs where cs: "input w1 = cs @ input w2"
    "events w2 = events w1 @ map (\<lambda>b. Read (fd sc) (Some b)) cs"
    by (auto simp: quiet_def)
  have "input w = (bs @ cs) @ input w2" using bs cs by simp
  moreover have "events w2 = events w @ map (\<lambda>b. Read (fd sc) (Some b)) (bs @ cs)"
    using bs cs by simp
  ultimately have "\<exists>ds. input w = ds @ input w2 \<and>
      events w2 = events w @ map (\<lambda>b. Read (fd sc) (Some b)) ds" by blast
  then show ?thesis using a b by (simp add: quiet_def)
qed

lemma quiet_consume: "input w = bs @ rest \<Longrightarrow> quiet sc w (consume sc bs w)"
  by (auto simp: quiet_def consume_def)

lemma quiet_heap_next: "quiet sc w w' \<Longrightarrow> quiet sc w (heap_next w')"
  by (simp add: quiet_def heap_next_def)

subsection \<open>What one pass does\<close>

lemma thread_loop_pass:
  assumes flt: "filter_fn sc"
  shows "(\<exists>w''. thread_loop sc w = Exit 0 (read_fails sc w'') \<and> quiet sc w w'' \<and> input w'' = [])
     \<or> (\<exists>wn. thread_loop sc w = thread_loop sc wn \<and> quiet sc w wn \<and>
            length (input wn) < length (input w))
     \<or> (\<exists>w4 pkt. thread_loop sc w = thread_loop sc (call (Filter (argp sc) (Some pkt)) w4) \<and>
            quiet sc w w4 \<and> length (input w4) < length (input w) \<and> on_wire (input w) pkt)"
    (is "?A \<or> ?B \<or> ?C")
proof (cases "VBUS_SYNC \<in> set (input w)")
  case False
  have "thread_loop sc w = Exit 0 (read_fails sc (consume sc (input w) w))"
    using False by (rule thread_loop_no_sync)
  moreover have "quiet sc w (consume sc (input w) w)"
    by (rule quiet_consume [where rest = "[]"]) simp
  ultimately have ?A by (intro exI [of _ "consume sc (input w) w"]) simp
  then show ?thesis ..
next
  case True
  then obtain pre r where inp: "input w = pre @ VBUS_SYNC # r" and pre: "VBUS_SYNC \<notin> set pre"
    by (auto dest: split_list_first)
  consider
      (full) hdr rest where "r = hdr @ rest" "length hdr = 9" "wire_clean hdr"
    | (dirty) cl d rest where "r = cl @ d # rest" "length cl < 9" "wire_clean cl" "d AND 0x80 \<noteq> 0"
    | (short) "length r < 9" "wire_clean r"
    using wire_shapes [of r 9] by blast
  then show ?thesis
  proof cases
    case short
    have "thread_loop sc w = Exit 0 (read_fails sc (consume sc (input w) w))"
      using inp pre short by (rule thread_loop_hdr_eof)
    moreover have "quiet sc w (consume sc (input w) w)"
      by (rule quiet_consume [where rest = "[]"]) simp
    ultimately have ?A by (intro exI [of _ "consume sc (input w) w"]) simp
    then show ?thesis ..
  next
    case dirty
    let ?wn = "consume sc (pre @ VBUS_SYNC # cl @ [d]) w"
    have i: "input w = (pre @ VBUS_SYNC # cl @ [d]) @ rest" using inp dirty by simp
    have "thread_loop sc w = thread_loop sc ?wn"
      using inp pre dirty by (intro thread_loop_hdr_dirty) simp_all
    moreover have "quiet sc w ?wn" using i by (rule quiet_consume)
    moreover have "input ?wn = rest" using i by (rule input_consume)
    then have "length (input ?wn) < length (input w)" using i by simp
    ultimately have ?B by blast
    then show ?thesis by blast
  next
    case full
    let ?w2 = "consume sc (pre @ VBUS_SYNC # hdr) w"
    have i: "input w = (pre @ VBUS_SYNC # hdr) @ rest" using inp full by simp
    have i': "input w = pre @ VBUS_SYNC # hdr @ rest" using inp full by simp
    have q2: "quiet sc w ?w2" using i by (rule quiet_consume)
    have i2: "input ?w2 = rest" using i by (rule input_consume)
    have l2: "length (input ?w2) < length (input w)" using i i2 by simp
    have "vbus_crc_ok hdr 9 = Some True \<or> vbus_crc_ok hdr 9 = Some False"
      using full by (simp add: vbus_crc_ok_eq)
    then show ?thesis
    proof
      assume "vbus_crc_ok hdr 9 = Some False"
      then have "thread_loop sc w = thread_loop sc ?w2"
        using i' pre full by (intro thread_loop_hdr_bad_crc) simp_all
      with q2 l2 have ?B by blast
      then show ?thesis by blast
    next
      assume "vbus_crc_ok hdr 9 = Some True"
      then have hdr: "valid_header hdr" using full by (simp add: valid_header_def)
      let ?w3 = "heap_next ?w2"
      have q3: "quiet sc w ?w3" using q2 by (rule quiet_heap_next)
      have i3: "input ?w3 = rest" using i2 by simp
      show ?thesis
      proof (cases "heap w 0 (8 + 4 * unat (hdr ! 7))")
        case None
        have "thread_loop sc w = thread_loop sc ?w3"
          using i' pre hdr None by (rule thread_loop_no_memory)
        moreover have "length (input ?w3) < length (input w)" using l2 by simp
        ultimately have ?B using q3 by blast
        then show ?thesis by blast
      next
        case (Some junk)
        consider
            (a) fs post where "rest = concat fs @ post" "length fs = unat (hdr ! 7)"
              "\<forall>f\<in>set fs. valid_frame f"
          | (b) fs bad post where "rest = concat fs @ bad @ post" "length fs < unat (hdr ! 7)"
              "\<forall>f\<in>set fs. valid_frame f" "bad_frame bad"
          | (c) fs tail where "rest = concat fs @ tail" "length fs < unat (hdr ! 7)"
              "\<forall>f\<in>set fs. valid_frame f" "length tail < 6" "wire_clean tail"
          using frames_shapes [of rest "unat (hdr ! 7)"] by blast
        then show ?thesis
        proof cases
          case a
          let ?pkt = "(header_pkt hdr junk)
              \<lparr>aux_data := store_frames (aux_data (header_pkt hdr junk)) 0 fs\<rparr>"
          let ?w4 = "consume sc (concat fs) ?w3"
          have ia: "input w = pre @ VBUS_SYNC # hdr @ concat fs @ post" using i' a by simp
          have "thread_loop sc w = thread_loop sc (call (Filter (argp sc) (Some ?pkt)) ?w4)"
            using ia pre hdr Some a(2,3) flt by (rule thread_loop_delivers)
          moreover have "input ?w3 = concat fs @ post" using i3 a by simp
          then have "quiet sc ?w3 ?w4" "input ?w4 = post"
            by (rule quiet_consume, rule input_consume)
          then have "quiet sc w ?w4" "length (input ?w4) < length (input w)"
            using q3 ia by (auto intro: quiet_trans)
          moreover have "?pkt = decoded_pkt hdr fs"
            using a(2) by (rule header_pkt_stored)
          then have "on_wire (input w) ?pkt"
            unfolding on_wire_def using ia hdr a(2,3) by blast
          ultimately have ?C by blast
          then show ?thesis by blast
        next
          case b
          let ?wn = "consume sc (concat fs @ bad) ?w3"
          have ib: "input w = pre @ VBUS_SYNC # hdr @ concat fs @ bad @ post" using i' b by simp
          have "thread_loop sc w = thread_loop sc ?wn"
            using ib pre hdr Some b(2,3,4) by (rule thread_loop_frame_bad)
          moreover have "input ?w3 = (concat fs @ bad) @ post" using i3 b by simp
          then have "quiet sc ?w3 ?wn" "input ?wn = post"
            by (rule quiet_consume, rule input_consume)
          then have "quiet sc w ?wn" "length (input ?wn) < length (input w)"
            using q3 ib by (auto intro: quiet_trans)
          ultimately have ?B by blast
          then show ?thesis by blast
        next
          case c
          let ?w'' = "consume sc (concat fs @ tail) ?w3"
          have ic: "input w = pre @ VBUS_SYNC # hdr @ concat fs @ tail" using i' c by simp
          have "thread_loop sc w = Exit 0 (read_fails sc ?w'')"
            using ic pre hdr Some c(2,3,4,5) by (rule thread_loop_frames_eof)
          moreover have "input ?w3 = (concat fs @ tail) @ []" using i3 c by simp
          then have "quiet sc ?w3 ?w''" "input ?w'' = []"
            by (rule quiet_consume, rule input_consume)
          then have "quiet sc w ?w''" "input ?w'' = []"
            using q3 by (auto intro: quiet_trans)
          ultimately have ?A by blast
          then show ?thesis by blast
        qed
      qed
    qed
  qed
qed

lemma on_wire_prefix: "on_wire inp pkt \<Longrightarrow> on_wire (bs @ inp) pkt"
proof -
  assume "on_wire inp pkt"
  then obtain pre hdr fs post where
    h: "inp = pre @ VBUS_SYNC # hdr @ concat fs @ post" "valid_header hdr"
      "length fs = unat (hdr ! 7)" "\<forall>f\<in>set fs. valid_frame f"
      "pkt = decoded_pkt hdr fs"
    unfolding on_wire_def by blast
  have "bs @ inp = (bs @ pre) @ VBUS_SYNC # hdr @ concat fs @ post" using h(1) by simp
  then show ?thesis unfolding on_wire_def using h(2-5) by blast
qed

lemma thread_loop_run:
  assumes flt: "filter_fn sc"
  shows "\<exists>w'' evs. thread_loop sc w = Exit 0 (read_fails sc w'') \<and>
           events w'' = events w @ evs \<and> (\<forall>e\<in>set evs. loop_event e) \<and>
           (\<forall>a pkt. Filter a (Some pkt) \<in> set evs \<longrightarrow> a = argp sc \<and> on_wire (input w) pkt) \<and>
           read_errno w'' = read_errno w \<and> input w'' = []"
proof (induction "length (input w)" arbitrary: w rule: less_induct)
  case less
  let ?rd = "\<lambda>b. Read (fd sc) (Some b)"
  consider
      (A) w'' where "thread_loop sc w = Exit 0 (read_fails sc w'')" "quiet sc w w''" "input w'' = []"
    | (B) wn where "thread_loop sc w = thread_loop sc wn" "quiet sc w wn"
        "length (input wn) < length (input w)"
    | (C) w4 pkt where "thread_loop sc w = thread_loop sc (call (Filter (argp sc) (Some pkt)) w4)"
        "quiet sc w w4" "length (input w4) < length (input w)" "on_wire (input w) pkt"
    using thread_loop_pass [OF flt, of w] by blast
  then show ?case
  proof cases
    case A
    from A(2) obtain bs where "events w'' = events w @ map ?rd bs"
      "read_errno w'' = read_errno w"
      by (auto simp: quiet_def)
    with A(1,3) show ?thesis
      by (intro exI [of _ w''] exI [of _ "map ?rd bs"]) auto
  next
    case B
    from B(2) obtain bs where q: "input w = bs @ input wn" "events wn = events w @ map ?rd bs"
      "read_errno wn = read_errno w"
      by (auto simp: quiet_def)
    from less [OF B(3)] obtain w'' evs where
      r: "thread_loop sc wn = Exit 0 (read_fails sc w'')" "events w'' = events wn @ evs"
        "\<forall>e\<in>set evs. loop_event e"
        "\<forall>a pkt. Filter a (Some pkt) \<in> set evs \<longrightarrow> a = argp sc \<and> on_wire (input wn) pkt"
        "read_errno w'' = read_errno wn" "input w'' = []"
      by blast
    have "\<forall>a pkt. Filter a (Some pkt) \<in> set (map ?rd bs @ evs) \<longrightarrow>
        a = argp sc \<and> on_wire (input w) pkt"
      using r(4) q(1) on_wire_prefix [of "input wn" _ bs] by auto
    moreover have "\<forall>e\<in>set (map ?rd bs @ evs). loop_event e" using r(3) by auto
    moreover have "events w'' = events w @ map ?rd bs @ evs" using r(2) q(2) by simp
    ultimately show ?thesis using B(1) r(1,5,6) q(3)
      by (intro exI [of _ w''] exI [of _ "map ?rd bs @ evs"]) simp
  next
    case C
    let ?w5 = "call (Filter (argp sc) (Some pkt)) w4"
    from C(2) obtain bs where q: "input w = bs @ input w4" "events w4 = events w @ map ?rd bs"
      "read_errno w4 = read_errno w"
      by (auto simp: quiet_def)
    have w5: "input ?w5 = input w4" "events ?w5 = events w4 @ [Filter (argp sc) (Some pkt)]"
      "read_errno ?w5 = read_errno w4"
      by simp_all
    have "length (input ?w5) < length (input w)" using C(3) w5(1) by simp
    from less [OF this] obtain w'' evs where
      r: "thread_loop sc ?w5 = Exit 0 (read_fails sc w'')" "events w'' = events ?w5 @ evs"
        "\<forall>e\<in>set evs. loop_event e"
        "\<forall>a p. Filter a (Some p) \<in> set evs \<longrightarrow> a = argp sc \<and> on_wire (input ?w5) p"
        "read_errno w'' = read_errno ?w5" "input w'' = []"
      by blast
    let ?evs = "map ?rd bs @ Filter (argp sc) (Some pkt) # evs"
    have "\<forall>a p. Filter a (Some p) \<in> set ?evs \<longrightarrow> a = argp sc \<and> on_wire (input w) p"
      using r(4) q(1) w5(1) C(4) on_wire_prefix [of "input w4" _ bs] by auto
    moreover have "\<forall>e\<in>set ?evs. loop_event e" using r(3) by auto
    moreover have "events w'' = events w @ ?evs" using r(2) q(2) w5(2) by simp
    ultimately show ?thesis using C(1) r(1,5,6) q(3) w5(3)
      by (intro exI [of _ w''] exI [of _ ?evs]) simp
  qed
qed

subsection \<open>Teardown\<close>

lemma loop_event_not_sentinel: "loop_event e \<Longrightarrow> \<not> is_sentinel e"
  by (cases e rule: loop_event.cases) auto

lemma filter_sentinel_loop: "\<forall>e\<in>set evs. loop_event e \<Longrightarrow> filter is_sentinel evs = []"
  by (induction evs) (auto dest: loop_event_not_sentinel)

lemma events_vbus_cleanup:
  "events (vbus_cleanup (Some sc) w) =
     events w @ (if do_stty sc then [Tcsetattr (fd sc) (termios sc)] else [])
       @ (if fd sc \<noteq> -1 then [Close (fd sc)] else [])
       @ (if filter_fn sc then [Filter (argp sc) None] else []) @ [Free_softc]"
  by (simp add: vbus_cleanup_def emit_def call_def Let_def)

lemma events_read_fails: "events (read_fails sc w) = events w @ [Read (fd sc) None]"
  by (simp add: read_fails_def emit_def)

subsection \<open>The NULL calls of a start\<close>

lemma init_launch_events:
  assumes "filter_fn sc"
  shows "(init_launch os sc w = Init_null w' \<longrightarrow>
            (\<exists>evs. events w' = events w @ evs \<and> length (filter is_sentinel evs) = 1))
       \<and> (init_launch os sc w = Init_started sc' w' \<longrightarrow> events w' = events w \<and> filter_fn sc')
       \<and> init_launch os sc w \<noteq> Init_fault w'"
  using assms by (auto simp: init_launch_def events_vbus_cleanup)

lemma init_stty_events:
  assumes "filter_fn sc"
  shows "(init_stty os ds sc w = Init_null w' \<longrightarrow>
            (\<exists>evs. events w' = events w @ evs \<and> length (filter is_sentinel evs) = 1))
       \<and> (init_stty os ds sc w = Init_started sc' w' \<longrightarrow>
            (\<exists>evs. events w' = events w @ evs \<and> filter is_sentinel evs = []) \<and> filter_fn sc')"
proof (cases "fd sc = -1")
  case True
  then show ?thesis using assms by (auto simp: init_stty_def events_vbus_cleanup)
next
  case False
  show ?thesis
  proof (cases ds)
    case no: False
    then show ?thesis
      using False init_launch_events [OF assms, of os w w' sc']
      by (auto simp: init_stty_def)
  next
    case True
    show ?thesis
    proof (cases "tcgetattr_res os (fd sc)")
      case None
      then show ?thesis using False True assms
        by (auto simp: init_stty_def events_vbus_cleanup emit_def call_def)
    next
      case (Some tio)
      let ?sc1 = "sc\<lparr>termios := tio, raw_termios := cfraw os tio\<rparr>"
      let ?w1 = "call (Tcsetattr (fd ?sc1) (raw_termios ?sc1)) (call (Tcgetattr (fd sc)) w)"
      have e1: "events ?w1 = events w @ [Tcgetattr (fd sc), Tcsetattr (fd sc) (cfraw os tio)]"
        by (simp add: emit_def call_def)
      show ?thesis
      proof (cases "tcsetattr_rc os (fd ?sc1) (raw_termios ?sc1) \<noteq> 0")
        case rc: True
        have "init_stty os ds sc w = Init_null (vbus_cleanup (Some ?sc1) ?w1)"
          using False True Some rc by (simp add: init_stty_def Let_def)
        moreover have "\<exists>evs. events (vbus_cleanup (Some ?sc1) ?w1) = events w @ evs \<and>
            length (filter is_sentinel evs) = 1"
          using assms by (auto simp: events_vbus_cleanup emit_def call_def)
        ultimately show ?thesis by auto
      next
        case rc: False
        let ?sc2 = "?sc1\<lparr>do_stty := ds\<rparr>"
        have i: "init_stty os ds sc w = init_launch os ?sc2 ?w1"
          using False True Some rc by (simp add: init_stty_def Let_def)
        have f2: "filter_fn ?sc2" using assms by simp
        from init_launch_events [OF f2, of os ?w1 w' sc'] show ?thesis
          unfolding i e1 by auto
      qed
    qed
  qed
qed

lemma vbus_init_events:
  "(vbus_init key os path ds True a w = Init_null w' \<longrightarrow>
      (\<exists>evs. events w' = events w @ evs \<and> length (filter is_sentinel evs) =
        (if (key = 0 \<and> key_create_rc os \<noteq> 0) \<or> \<not> malloc_softc os then 0 else 1)))
   \<and> (vbus_init key os path ds True a w = Init_started sc w' \<longrightarrow>
      (\<exists>evs. events w' = events w @ evs \<and> filter is_sentinel evs = []) \<and> filter_fn sc)"
proof (cases "(key = 0 \<and> key_create_rc os \<noteq> 0) \<or> \<not> malloc_softc os")
  case True
  then show ?thesis by (auto simp: vbus_init_def vbus_cleanup_def)
next
  case False
  let ?sc = "\<lparr>fd = 0, do_stty = False, termios = 0, raw_termios = 0, filter_fn = True, argp = a\<rparr>"
  show ?thesis
  proof (cases path)
    case None
    then show ?thesis using False by (auto simp: vbus_init_def open_wanted_def)
  next
    case (Some fn)
    let ?sc1 = "?sc\<lparr>fd := open_rc os fn\<rparr>"
    let ?w1 = "call (Open_dev fn) w"
    have i: "vbus_init key os path ds True a w = init_stty os ds ?sc1 ?w1"
      using False Some by (auto simp: vbus_init_def open_wanted_def Let_def)
    have f: "filter_fn ?sc1" by simp
    have e: "events ?w1 = events w @ [Open_dev fn]" by (simp add: emit_def call_def)
    from init_stty_events [OF f, of os ds ?w1 w' sc] show ?thesis
      unfolding i e using False by auto
  qed
qed

subsection \<open>A concrete run\<close>

lemma valid_hdr1: "valid_header hdr1"
  by (simp add: valid_header_def hdr1_def wire_clean_def vbus_crc_ok_eq)

lemma valid_frame1: "valid_frame frame1"
  by (simp add: valid_frame_def frame1_def wire_clean_def vbus_crc_ok_eq)

lemma pkt1_decoded: "decoded_pkt hdr1 [frame1] = pkt1"
  by (simp add: decoded_pkt_def hdr1_def frame1_def pkt1_def frame_bytes_def)

lemma run1:
  "thread_loop sc0 (world0 (0x55 # VBUS_SYNC # hdr1 @ frame1) None) =
     Exit 0 (read_fails sc0
       (call (Filter 0 (Some pkt1))
         (heap_next (consume sc0 (0x55 # VBUS_SYNC # hdr1 @ frame1)
            (world0 (0x55 # VBUS_SYNC # hdr1 @ frame1) None)))))"
proof -
  let ?w = "world0 (0x55 # VBUS_SYNC # hdr1 @ frame1) None"
  let ?w5 = "call (Filter (argp sc0) (Some ((header_pkt hdr1 (\<lambda>i. 0))
              \<lparr>aux_data := store_frames (aux_data (header_pkt hdr1 (\<lambda>i. 0))) 0 [frame1]\<rparr>)))
         (consume sc0 (concat [frame1]) (heap_next (consume sc0 ([0x55] @ VBUS_SYNC # hdr1) ?w)))"
  have inp: "input ?w = [0x55] @ VBUS_SYNC # hdr1 @ concat [frame1] @ []"
    by (simp add: world0_def)
  have pre: "VBUS_SYNC \<notin> set [0x55]" by (simp add: VBUS_SYNC_def)
  have mem: "heap ?w 0 (8 + 4 * unat (hdr1 ! 7)) = Some (\<lambda>i. 0)" by (simp add: world0_def)
  have fs: "length [frame1] = unat (hdr1 ! 7)" "\<forall>f\<in>set [frame1]. valid_frame f"
    by (simp_all add: hdr1_def valid_frame1)
  have flt: "filter_fn sc0" by (simp add: sc0_def)
  have "thread_loop sc0 ?w = thread_loop sc0 ?w5"
    using inp pre valid_hdr1 mem fs flt by (rule thread_loop_delivers)
  moreover have i5: "input ?w5 = []"
    by (simp add: emit_def call_def consume_def heap_next_def world0_def hdr1_def frame1_def)
  then have "thread_loop sc0 ?w5 = Exit 0 (read_fails sc0 (consume sc0 (input ?w5) ?w5))"
    by (intro thread_loop_no_sync) simp
  ultimately have "thread_loop sc0 ?w = Exit 0 (read_fails sc0 ?w5)"
    using i5 by simp
  moreover have "?w5 = call (Filter 0 (Some pkt1))
         (heap_next (consume sc0 (0x55 # VBUS_SYNC # hdr1 @ frame1) ?w))"
    using header_pkt_stored [of "[frame1]" hdr1 "\<lambda>i. 0"]
    by (simp add: pkt1_decoded consume_def emit_def call_def heap_next_def world0_def sc0_def)
       (simp add: hdr1_def)
  ultimately show ?thesis by simp
qed

lemma bad_frame1_bad: "bad_frame frame1_bad"
  by (simp add: bad_frame_def frame1_bad_def wire_clean_def vbus_crc_ok_eq)


section \<open>The claims\<close>

text \<open>
  C2. For a span of \<open>len \<ge> 1\<close> bytes, \<open>vbus_crc_ok\<close> returns true exactly when the
  last byte is the 8-bit sum of the bytes before it, negated bitwise, with the top bit
  cleared. \<open>vbus_parse_header\<close> applies it to its 9 bytes and \<open>vbus_read_frame\<close>
  to its 6 bytes: a span whose last byte is not that value is rejected by both.
\<close>

theorem vbus_crc_ok_checksum:
  assumes "len \<noteq> 0" and "unat len \<le> length buffer"
  shows "vbus_crc_ok buffer len =
           Some (buffer ! (unat len - 1) = NOT (sum_list (take (unat len - 1) buffer)) AND 0x7f)
       \<and> (len = 9 \<and> buffer ! 8 \<noteq> NOT (sum_list (take 8 buffer)) AND 0x7f \<longrightarrow>
            vbus_parse_header buffer w = Ret None w)
       \<and> (len = 6 \<and> length buffer = 6 \<and> wire_clean buffer \<and> input w = buffer @ rest \<and>
            buffer ! 5 \<noteq> NOT (sum_list (take 5 buffer)) AND 0x7f \<longrightarrow>
            vbus_read_frame sc w = Ret None (consume sc buffer w))"
proof (intro conjI impI)
  show eq: "vbus_crc_ok buffer len =
      Some (buffer ! (unat len - 1) = NOT (sum_list (take (unat len - 1) buffer)) AND 0x7f)"
    using assms by (rule vbus_crc_ok_eq)
  {
    assume h: "len = 9 \<and> buffer ! 8 \<noteq> NOT (sum_list (take 8 buffer)) AND 0x7f"
    then have "vbus_crc_ok buffer 9 = Some False" using eq by simp
    then show "vbus_parse_header buffer w = Ret None w" by (rule vbus_parse_header_bad_crc)
  }
  {
    assume h: "len = 6 \<and> length buffer = 6 \<and> wire_clean buffer \<and> input w = buffer @ rest \<and>
            buffer ! 5 \<noteq> NOT (sum_list (take 5 buffer)) AND 0x7f"
    then have "vbus_crc_ok buffer 6 = Some False" using eq by simp
    with h show "vbus_read_frame sc w = Ret None (consume sc buffer w)"
      by (intro vbus_read_frame_bad_crc [where rest = rest]) simp_all
  }
qed

theorem vbus_crc_ok_checksum_witness:
  "vbus_crc_ok [0x34, 0x12, 0x00, 0x00, 0x01, 0x10, 0x00, 0x02, 0x26] 9 = Some True
   \<and> vbus_crc_ok [0x34, 0x12, 0x00, 0x00, 0x01, 0x10, 0x00, 0x02, 0x27] 9 = Some False
   \<and> vbus_parse_header [0x34, 0x12, 0x00, 0x00, 0x01, 0x10, 0x00, 0x02, 0x27] (world0 [] None)
       = Ret None (world0 [] None)
   \<and> vbus_crc_ok [0x01, 0x00, 0x7f, 0x00, 0x02, 0x7d] 6 = Some True"
  using vbus_crc_ok_checksum [of 9 "[0x34, 0x12, 0x00, 0x00, 0x01, 0x10, 0x00, 0x02, 0x26]"]
    vbus_crc_ok_checksum [of 9 "[0x34, 0x12, 0x00, 0x00, 0x01, 0x10, 0x00, 0x02, 0x27]" "world0 [] None"]
    vbus_crc_ok_checksum [of 6 "[0x01, 0x00, 0x7f, 0x00, 0x02, 0x7d]"]
  by simp

text \<open>
  C9. The checksum \<open>vbus_crc_ok\<close> computes has its top bit clear, so a span whose last
  byte has the top bit set (the marker \<open>0xaa\<close> among them) is never accepted; and a
  frame whose sixth byte has the top bit set is rejected by \<open>vbus_read_frame\<close>, by the
  scan of the top bits as well as by the checksum.
\<close>

theorem vbus_crc_top_bit_clear:
  assumes "len \<noteq> 0" and "unat len \<le> length buffer"
  shows "(\<exists>c. crc_value buffer len = Some c \<and> c AND 0x80 = 0)
       \<and> (buffer ! (unat len - 1) AND 0x80 \<noteq> 0 \<longrightarrow> vbus_crc_ok buffer len = Some False)
       \<and> (len = 6 \<and> length buffer = 6 \<and> buffer ! 5 AND 0x80 \<noteq> 0 \<and> input w = buffer @ rest \<longrightarrow>
            (\<exists>w'. vbus_read_frame sc w = Ret None w'))"
proof (intro conjI impI)
  show "\<exists>c. crc_value buffer len = Some c \<and> c AND 0x80 = 0"
    using assms by (simp add: crc_value_eq not_low7_top_clear)
  {
    assume "buffer ! (unat len - 1) AND 0x80 \<noteq> 0"
    with assms show "vbus_crc_ok buffer len = Some False" by (rule vbus_crc_ok_top_bit)
  }
  {
    assume h: "len = 6 \<and> length buffer = 6 \<and> buffer ! 5 AND 0x80 \<noteq> 0 \<and> input w = buffer @ rest"
    then have "buffer ! 5 \<in> set buffer" by simp
    with h have "\<not> wire_clean buffer" by (auto simp: wire_clean_def)
    then obtain cl b rest' where s: "buffer = cl @ b # rest'" "wire_clean cl" "b AND 0x80 \<noteq> 0"
      using first_dirty by blast
    with h have "length cl < 6" by auto
    moreover have "input w = cl @ b # (rest' @ rest)" using h s by simp
    ultimately have "vbus_read_frame sc w = Ret None (consume sc (cl @ [b]) w)"
      using s by (intro vbus_read_frame_dirty) 
    then show "\<exists>w'. vbus_read_frame sc w = Ret None w'" ..
  }
qed

theorem vbus_crc_top_bit_clear_witness:
  "(\<exists>c. crc_value [0, 0, 0, 0, 0, 0xaa] 6 = Some c \<and> c AND 0x80 = 0)
   \<and> vbus_crc_ok [0, 0, 0, 0, 0, 0xaa] 6 = Some False
   \<and> (\<exists>w'. vbus_read_frame sc0 (world0 [0, 0, 0, 0, 0, 0xaa] None) = Ret None w')"
  using vbus_crc_top_bit_clear [of 6 "[0, 0, 0, 0, 0, 0xaa]" "world0 [0, 0, 0, 0, 0, 0xaa] None" "[]" sc0]
  by (simp add: world0_def)


text \<open>
  C7, as the code has it. In a span the checksum accepts, a single byte is changed to a
  different value. The changed span is accepted exactly when the byte is not the
  checksum byte and the old and the new value have the same low seven bits, that is,
  when only the top bit of a byte before the checksum was flipped. Every other change
  of one byte is rejected.
\<close>

theorem vbus_crc_ok_single_byte_mutation:
  assumes len: "len \<noteq> 0" "unat len \<le> length buffer"
    and ok: "vbus_crc_ok buffer len = Some True"
    and i: "i < unat len" and v: "v \<noteq> buffer ! i"
  shows "vbus_crc_ok (buffer[i := v]) len =
           Some (i < unat len - 1 \<and> v AND 0x7f = buffer ! i AND 0x7f)"
proof -
  let ?n = "unat len - 1"
  have n: "?n < length buffer" using len i by simp
  have orig: "buffer ! ?n = NOT (sum_list (take ?n buffer)) AND 0x7f"
    using ok len by (simp add: vbus_crc_ok_eq)
  have eq: "vbus_crc_ok (buffer[i := v]) len =
      Some (buffer[i := v] ! ?n = NOT (sum_list (take ?n (buffer[i := v]))) AND 0x7f)"
    using len by (simp add: vbus_crc_ok_eq)
  show ?thesis
  proof (cases "i = ?n")
    case True
    then have "take ?n (buffer[i := v]) = take ?n buffer" by simp
    moreover have "buffer[i := v] ! ?n = v" using True n by simp
    ultimately show ?thesis using eq orig v True by simp
  next
    case False
    then have lt: "i < ?n" using i by simp
    have last: "buffer[i := v] ! ?n = buffer ! ?n" using False by simp
    have s: "sum_list (take ?n (buffer[i := v])) = sum_list (take ?n buffer) - buffer ! i + v"
      using lt n by (simp add: sum_list_take_update)
    have "(buffer ! ?n = NOT (sum_list (take ?n (buffer[i := v]))) AND 0x7f) \<longleftrightarrow>
        take_bit 7 (sum_list (take ?n buffer) - buffer ! i + v) =
        take_bit 7 (sum_list (take ?n buffer))"
      using orig s by (auto simp: not_low7_eq_iff)
    also have "\<dots> \<longleftrightarrow> take_bit 7 v = take_bit 7 (buffer ! i)"
      using take_bit7_cancel take_bit7_same_low by blast
    finally show ?thesis using eq last lt by (simp add: low7_eq_iff)
  qed
qed

theorem vbus_crc_ok_single_byte_mutation_witness:
  "vbus_crc_ok [0x34, 0x12, 0x00, 0x00, 0x01, 0x10, 0x00, 0x02, 0x26] 9 = Some True
   \<and> vbus_crc_ok [0x35, 0x12, 0x00, 0x00, 0x01, 0x10, 0x00, 0x02, 0x26] 9 = Some False
   \<and> vbus_crc_ok [0x34, 0x12, 0x00, 0x00, 0x01, 0x10, 0x00, 0x02, 0xa6] 9 = Some False
   \<and> vbus_crc_ok [0x34, 0x12, 0x00, 0x00, 0x81, 0x10, 0x00, 0x02, 0x26] 9 = Some True"
  using vbus_crc_ok_single_byte_mutation [where len = 9 and buffer = "[0x34, 0x12, 0x00, 0x00, 0x01, 0x10, 0x00, 0x02, 0x26]" and i = 0 and v = "0x35"]
    vbus_crc_ok_single_byte_mutation [where len = 9 and buffer = "[0x34, 0x12, 0x00, 0x00, 0x01, 0x10, 0x00, 0x02, 0x26]" and i = 8 and v = "0xa6"]
    vbus_crc_ok_single_byte_mutation [where len = 9 and buffer = "[0x34, 0x12, 0x00, 0x00, 0x01, 0x10, 0x00, 0x02, 0x26]" and i = 4 and v = "0x81"]
  by (simp add: vbus_crc_ok_eq)

text \<open>
  C7, as stated, fails: flipping the top bit of the first byte of an accepted header
  gives a different span that is accepted too.
\<close>

theorem vbus_crc_ok_top_bit_flip_counterexample:
  "vbus_crc_ok [0x34, 0x12, 0x00, 0x00, 0x01, 0x10, 0x00, 0x02, 0x26] 9 = Some True
   \<and> [0x34, 0x12, 0x00, 0x00, 0x01, 0x10, 0x00, 0x02, 0x26] ! 0 \<noteq> (0xb4 :: byte)
   \<and> vbus_crc_ok ([0x34, 0x12, 0x00, 0x00, 0x01, 0x10, 0x00, 0x02, 0x26] [0 := 0xb4]) 9 = Some True"
  by (simp add: vbus_crc_ok_eq)

text \<open>
  C10. As implemented, every byte \<open>vbus_read_frame\<close> stores for an accepted frame (six
  bytes with the top bit clear and a valid checksum) is \<open>0x00\<close> or \<open>0x80\<close>: byte
  \<open>i\<close> is \<open>0x80\<close> exactly when wire byte \<open>i\<close> is not zero or bit \<open>i\<close> of the
  map byte is set.
\<close>

theorem vbus_read_frame_as_implemented:
  assumes "input w = buffer @ rest" and "length buffer = 6" and "wire_clean buffer"
    and "vbus_crc_ok buffer 6 = Some True"
  shows "\<exists>frame. vbus_read_frame sc w = Ret (Some frame) (consume sc buffer w)
           \<and> length frame = 4
           \<and> (\<forall>i<4. frame ! i = (if buffer ! i \<noteq> 0 \<or> bit (buffer ! 4) i then 0x80 else 0))"
proof -
  let ?frame = "[if (buffer ! 0 OR (buffer ! 4 AND 1)) \<noteq> 0 then 0x80 else 0,
      if (buffer ! 1 OR (buffer ! 4 AND 2)) \<noteq> 0 then 0x80 else 0,
      if (buffer ! 2 OR (buffer ! 4 AND 4)) \<noteq> 0 then 0x80 else 0,
      if (buffer ! 3 OR (buffer ! 4 AND 8)) \<noteq> 0 then 0x80 else (0::byte)]"
  have r: "vbus_read_frame sc w = Ret (Some ?frame) (consume sc buffer w)"
    using assms by (rule vbus_read_frame_accept)
  have "?frame ! i = (if buffer ! i \<noteq> 0 \<or> bit (buffer ! 4) i then 0x80 else 0)"
    if "i < 4" for i
  proof -
    from that consider "i = 0" | "i = 1" | "i = 2" | "i = 3" by linarith
    then show ?thesis
      using map_bit_iff [of "buffer ! 4"] by cases (simp_all add: or_eq_0_iff)
  qed
  with r show ?thesis by (intro exI [of _ ?frame]) simp
qed

theorem vbus_read_frame_as_implemented_witness:
  "\<exists>frame. vbus_read_frame sc0 (world0 [0x01, 0x00, 0x7f, 0x00, 0x02, 0x7d] None) =
      Ret (Some frame) (consume sc0 [0x01, 0x00, 0x7f, 0x00, 0x02, 0x7d]
        (world0 [0x01, 0x00, 0x7f, 0x00, 0x02, 0x7d] None))
    \<and> length frame = 4 \<and> frame ! 0 = 0x80 \<and> frame ! 1 = 0x80 \<and> frame ! 2 = 0x80 \<and> frame ! 3 = 0"
proof -
  have c: "vbus_crc_ok [0x01, 0x00, 0x7f, 0x00, 0x02, 0x7d] 6 = Some True"
    by (simp add: vbus_crc_ok_eq)
  have i: "input (world0 [0x01, 0x00, 0x7f, 0x00, 0x02, 0x7d] None) =
      [0x01, 0x00, 0x7f, 0x00, 0x02, 0x7d] @ []"
    by (simp add: world0_def)
  have k: "wire_clean [0x01, 0x00, 0x7f, 0x00, 0x02, 0x7d]"
    by (simp add: wire_clean_def)
  from vbus_read_frame_as_implemented [OF i _ k c, of sc0]
  obtain frame where f: "vbus_read_frame sc0 (world0 [0x01, 0x00, 0x7f, 0x00, 0x02, 0x7d] None) =
      Ret (Some frame) (consume sc0 [0x01, 0x00, 0x7f, 0x00, 0x02, 0x7d]
        (world0 [0x01, 0x00, 0x7f, 0x00, 0x02, 0x7d] None))"
    "length frame = 4"
    "\<forall>i<4. frame ! i = (if [0x01, 0x00, 0x7f, 0x00, 0x02, 0x7d :: byte] ! i \<noteq> 0 \<or>
        bit ([0x01, 0x00, 0x7f, 0x00, 0x02, 0x7d :: byte] ! 4) i then 0x80 else 0)"
    by auto
  from f(3) have "frame ! 0 = 0x80" "frame ! 1 = 0x80" "frame ! 2 = 0x80" "frame ! 3 = 0"
    by (simp_all add: bit_numeral_word_iff)
  with f(1,2) show ?thesis by blast
qed


text \<open>
  C1 asks for \<open>frame[i] = buffer[i] | (bit i of buffer[4] ? 0x80 : 0)\<close>. On the accepted
  frame \<open>01 00 00 00 00 7e\<close> the map bit 0 is clear, so byte 0 should be \<open>0x01\<close>; the
  code stores \<open>0x80\<close>.
\<close>

theorem vbus_read_frame_loses_low_bits:
  "vbus_read_frame sc0 (world0 [0x01, 0x00, 0x00, 0x00, 0x00, 0x7e] None) =
     Ret (Some [0x80, 0x00, 0x00, 0x00])
       (consume sc0 [0x01, 0x00, 0x00, 0x00, 0x00, 0x7e]
          (world0 [0x01, 0x00, 0x00, 0x00, 0x00, 0x7e] None))
   \<and> \<not> bit ([0x01, 0x00, 0x00, 0x00, 0x00, 0x7e :: byte] ! 4) 0
   \<and> [0x01, 0x00, 0x00, 0x00, 0x00, 0x7e :: byte] ! 0 \<noteq> 0x80"
proof -
  have c: "vbus_crc_ok [0x01, 0x00, 0x00, 0x00, 0x00, 0x7e] 6 = Some True"
    by (simp add: vbus_crc_ok_eq)
  have i: "input (world0 [0x01, 0x00, 0x00, 0x00, 0x00, 0x7e] None) =
      [0x01, 0x00, 0x00, 0x00, 0x00, 0x7e] @ []"
    by (simp add: world0_def)
  have k: "wire_clean [0x01, 0x00, 0x00, 0x00, 0x00, 0x7e]"
    by (simp add: wire_clean_def)
  show ?thesis
    using vbus_read_frame_accept [OF i _ k c, of sc0] by simp
qed

text \<open>
  C3. For nine header bytes with a valid checksum \<open>vbus_parse_header\<close> gives, when
  \<open>malloc\<close> gives the packet, \<open>dst = byte0 | byte1 << 8\<close>, \<open>src = byte2 | byte3 << 8\<close>,
  \<open>proto = byte4\<close>, \<open>cmd = byte5 | byte6 << 8\<close> and \<open>frames = byte7\<close> (read as numbers,
  low byte plus 256 times high byte), with room for \<open>4 * frames\<close> payload bytes; when
  \<open>malloc\<close> fails it gives no packet. The header \<open>34 12 00 00 01 10 00 02\<close> with its
  checksum \<open>26\<close> gives \<open>dst = 0x1234\<close>, \<open>src = 0\<close>, \<open>proto = 1\<close>, \<open>cmd = 0x0010\<close>,
  \<open>frames = 2\<close>.
\<close>

theorem vbus_parse_header_layout:
  assumes "length buffer = 9" and "vbus_crc_ok buffer 9 = Some True"
  shows "(heap w 0 (8 + 4 * unat (buffer ! 7)) = None \<longrightarrow>
           vbus_parse_header buffer w = Ret None (w\<lparr>heap := (\<lambda>k. heap w (Suc k))\<rparr>))
       \<and> (heap w 0 (8 + 4 * unat (buffer ! 7)) \<noteq> None \<longrightarrow>
           (\<exists>pkt. vbus_parse_header buffer w = Ret (Some pkt) (w\<lparr>heap := (\<lambda>k. heap w (Suc k))\<rparr>)
              \<and> dst pkt = ucast (buffer ! 0) OR push_bit 8 (ucast (buffer ! 1))
              \<and> src pkt = ucast (buffer ! 2) OR push_bit 8 (ucast (buffer ! 3))
              \<and> proto pkt = buffer ! 4
              \<and> cmd pkt = ucast (buffer ! 5) OR push_bit 8 (ucast (buffer ! 6))
              \<and> frames pkt = buffer ! 7
              \<and> unat (dst pkt) = unat (buffer ! 0) + 256 * unat (buffer ! 1)
              \<and> unat (src pkt) = unat (buffer ! 2) + 256 * unat (buffer ! 3)
              \<and> unat (cmd pkt) = unat (buffer ! 5) + 256 * unat (buffer ! 6)
              \<and> length (aux_data pkt) = 4 * unat (frames pkt)))"
  using assms(2) by (auto simp: vbus_parse_header_ok unat_le16)

theorem vbus_parse_header_layout_witness:
  "\<exists>pkt w'. vbus_parse_header [0x34, 0x12, 0x00, 0x00, 0x01, 0x10, 0x00, 0x02, 0x26] (world0 [] None)
       = Ret (Some pkt) w'
     \<and> dst pkt = 0x1234 \<and> src pkt = 0x0000 \<and> proto pkt = 1 \<and> cmd pkt = 0x0010
     \<and> frames pkt = 2 \<and> length (aux_data pkt) = 8"
proof -
  have c: "vbus_crc_ok [0x34, 0x12, 0x00, 0x00, 0x01, 0x10, 0x00, 0x02, 0x26] 9 = Some True"
    by (simp add: vbus_crc_ok_eq)
  have h: "heap (world0 [] None) 0 (8 + 4 * unat ([0x34, 0x12, 0x00, 0x00, 0x01, 0x10, 0x00, 0x02, 0x26 :: byte] ! 7)) \<noteq> None"
    by (simp add: world0_def)
  from vbus_parse_header_layout [OF _ c, of "world0 [] None"] h
  show ?thesis by auto
qed

text \<open>
  C4. A worker whose handler is not NULL runs until a read fails, and every packet it
  hands to the handler stands on the wire behind a marker byte as a valid header
  followed by as many valid frames as the header counts. When the header is valid and
  one of its frames is bad (a wrong checksum, or a byte with the top bit set), the
  worker goes on from a world in which it has only read bytes: the packet is not
  handed over, and (when \<open>malloc\<close> gave the packet) reading resumes behind the bad
  frame.
\<close>

theorem vbus_thread_delivers_only_valid:
  assumes "filter_fn sc"
  shows "(\<exists>w' evs. vbus_thread 0 sc w = Exit 0 w' \<and> events w' = events w @ evs \<and>
            (\<forall>a pkt. Filter a (Some pkt) \<in> set evs \<longrightarrow> on_wire (input w) pkt))
       \<and> (input w = pre @ VBUS_SYNC # hdr @ concat fs @ bad @ post \<and> VBUS_SYNC \<notin> set pre \<and>
          valid_header hdr \<and> length fs < unat (hdr ! 7) \<and> (\<forall>f\<in>set fs. valid_frame f) \<and>
          bad_frame bad \<longrightarrow>
            (\<exists>wn. vbus_thread 0 sc w = vbus_thread 0 sc wn \<and> quiet sc w wn \<and>
               (heap w 0 (8 + 4 * unat (hdr ! 7)) \<noteq> None \<longrightarrow> input wn = post)))"
proof (intro conjI impI)
  obtain w'' evs where r: "thread_loop sc w = Exit 0 (read_fails sc w'')"
    "events w'' = events w @ evs"
    "\<forall>a pkt. Filter a (Some pkt) \<in> set evs \<longrightarrow> a = argp sc \<and> on_wire (input w) pkt"
    using thread_loop_run [OF assms, of w] by blast
  let ?w' = "vbus_dtor (Some sc) (read_fails sc w'')"
  let ?evs = "evs @ [Read (fd sc) None]
              @ (if do_stty sc then [Tcsetattr (fd sc) (termios sc)] else [])
              @ (if fd sc \<noteq> -1 then [Close (fd sc)] else [])
              @ [Filter (argp sc) None, Free_softc]"
  have "vbus_thread 0 sc w = Exit 0 ?w'" using r(1) by (simp add: vbus_thread_def)
  moreover have "events ?w' = events w @ ?evs"
    using assms r(2) by (simp add: vbus_dtor_def events_vbus_cleanup events_read_fails)
  moreover have "\<forall>a pkt. Filter a (Some pkt) \<in> set ?evs \<longrightarrow> on_wire (input w) pkt"
    using r(3) by auto
  ultimately show "\<exists>w' evs. vbus_thread 0 sc w = Exit 0 w' \<and> events w' = events w @ evs \<and>
            (\<forall>a pkt. Filter a (Some pkt) \<in> set evs \<longrightarrow> on_wire (input w) pkt)"
    by blast
next
  assume h: "input w = pre @ VBUS_SYNC # hdr @ concat fs @ bad @ post \<and> VBUS_SYNC \<notin> set pre \<and>
          valid_header hdr \<and> length fs < unat (hdr ! 7) \<and> (\<forall>f\<in>set fs. valid_frame f) \<and>
          bad_frame bad"
  let ?w2 = "consume sc (pre @ VBUS_SYNC # hdr) w"
  have i: "input w = (pre @ VBUS_SYNC # hdr) @ concat fs @ bad @ post" using h by simp
  have q3: "quiet sc w (heap_next ?w2)"
    using i by (intro quiet_heap_next quiet_consume)
  show "\<exists>wn. vbus_thread 0 sc w = vbus_thread 0 sc wn \<and> quiet sc w wn \<and>
               (heap w 0 (8 + 4 * unat (hdr ! 7)) \<noteq> None \<longrightarrow> input wn = post)"
  proof (cases "heap w 0 (8 + 4 * unat (hdr ! 7))")
    case None
    have "thread_loop sc w = thread_loop sc (heap_next ?w2)"
      using h None by (intro thread_loop_no_memory [where rest = "concat fs @ bad @ post"]) simp_all
    then have "vbus_thread 0 sc w = vbus_thread 0 sc (heap_next ?w2)"
      by (simp add: vbus_thread_def)
    with q3 None show ?thesis by (intro exI [of _ "heap_next ?w2"]) simp
  next
    case (Some junk)
    let ?wn = "consume sc (concat fs @ bad) (heap_next ?w2)"
    have "thread_loop sc w = thread_loop sc ?wn"
      using h Some by (intro thread_loop_frame_bad [where post = post]) simp_all
    then have t: "vbus_thread 0 sc w = vbus_thread 0 sc ?wn"
      by (simp add: vbus_thread_def)
    have "input ?w2 = concat fs @ bad @ post" using i by (rule input_consume)
    then have i3: "input (heap_next ?w2) = (concat fs @ bad) @ post" by simp
    then have "quiet sc (heap_next ?w2) ?wn" "input ?wn = post"
      by (rule quiet_consume, rule input_consume)
    with q3 t show ?thesis by (intro exI [of _ ?wn]) (auto intro: quiet_trans)
  qed
qed



theorem vbus_thread_delivers_only_valid_witness:
  "Filter 0 (Some pkt1) \<in> set (events (final_world
       (vbus_thread 0 sc0 (world0 (0x55 # VBUS_SYNC # hdr1 @ frame1) None))))
   \<and> on_wire (0x55 # VBUS_SYNC # hdr1 @ frame1) pkt1
   \<and> (\<exists>wn. vbus_thread 0 sc0 (world0 (0x55 # VBUS_SYNC # hdr1 @ frame1_bad @ [0x33]) None) =
            vbus_thread 0 sc0 wn
          \<and> quiet sc0 (world0 (0x55 # VBUS_SYNC # hdr1 @ frame1_bad @ [0x33]) None) wn
          \<and> input wn = [0x33])"
proof (intro conjI)
  let ?w = "world0 (0x55 # VBUS_SYNC # hdr1 @ frame1) None"
  have flt: "filter_fn sc0" by (simp add: sc0_def)
  have run: "vbus_thread 0 sc0 ?w = Exit 0 (vbus_dtor (Some sc0) (read_fails sc0
       (call (Filter 0 (Some pkt1))
         (heap_next (consume sc0 (0x55 # VBUS_SYNC # hdr1 @ frame1) ?w)))))"
    by (simp add: vbus_thread_def run1)
  show in_ev: "Filter 0 (Some pkt1) \<in> set (events (final_world (vbus_thread 0 sc0 ?w)))"
    unfolding run
    by (simp add: vbus_dtor_def events_vbus_cleanup events_read_fails emit_def call_def)
  from vbus_thread_delivers_only_valid [OF flt, of ?w]
  obtain w' evs where r: "vbus_thread 0 sc0 ?w = Exit 0 w'" "events w' = events ?w @ evs"
    "\<forall>a pkt. Filter a (Some pkt) \<in> set evs \<longrightarrow> on_wire (input ?w) pkt"
    by blast
  have "events ?w = []" by (simp add: world0_def)
  with r(1,2) in_ev have "Filter 0 (Some pkt1) \<in> set evs" by simp
  with r(3) have "on_wire (input ?w) pkt1" by blast
  then show "on_wire (0x55 # VBUS_SYNC # hdr1 @ frame1) pkt1" by (simp add: world0_def)
next
  let ?w = "world0 (0x55 # VBUS_SYNC # hdr1 @ frame1_bad @ [0x33]) None"
  have flt: "filter_fn sc0" by (simp add: sc0_def)
  have h: "input ?w = [0x55] @ VBUS_SYNC # hdr1 @ concat [] @ frame1_bad @ [0x33] \<and>
      VBUS_SYNC \<notin> set [0x55] \<and> valid_header hdr1 \<and> length ([] :: byte list list) < unat (hdr1 ! 7) \<and>
      (\<forall>f\<in>set []. valid_frame f) \<and> bad_frame frame1_bad"
    by (simp add: world0_def VBUS_SYNC_def valid_hdr1 bad_frame1_bad) (simp add: hdr1_def)
  have m: "heap ?w 0 (8 + 4 * unat (hdr1 ! 7)) \<noteq> None" by (simp add: world0_def)
  from vbus_thread_delivers_only_valid [OF flt, of ?w "[0x55]" hdr1 "[]" frame1_bad "[0x33]"] h m
  show "\<exists>wn. vbus_thread 0 sc0 ?w = vbus_thread 0 sc0 wn \<and> quiet sc0 ?w wn \<and> input wn = [0x33]"
    by blast
qed

text \<open>
  C6. A worker whose handler is not NULL ends, on any input, with the events: reads and
  packets, the failed read, the restore of the terminal settings (if they were
  changed), the close of the device, one call of the handler with NULL, and the free
  of the worker state. So the NULL call happens exactly once, after the last read and
  before the state is released. The same teardown, with one NULL call, ends a worker
  whose \<open>pthread_setspecific\<close> failed; that worker exits with the value \<open>errno\<close> has
  once the teardown is over. \<open>vbus_init\<close> itself makes no NULL call when it starts
  the worker; when it fails it makes one if the worker state had been allocated, and
  none if it had not.
\<close>

theorem vbus_thread_sentinel_once:
  assumes "filter_fn sc"
  shows "(\<exists>w' evs. vbus_thread 0 sc w = Exit 0 w' \<and>
            events w' = events w @ evs @ [Read (fd sc) None]
              @ (if do_stty sc then [Tcsetattr (fd sc) (termios sc)] else [])
              @ (if fd sc \<noteq> -1 then [Close (fd sc)] else [])
              @ [Filter (argp sc) None, Free_softc] \<and>
            (\<forall>e\<in>set evs. loop_event e) \<and>
            length (filter is_sentinel (drop (length (events w)) (events w'))) = 1)
       \<and> (rc \<noteq> 0 \<longrightarrow>
            (\<exists>w'. vbus_thread rc sc w = Exit (word_of_int (errno w')) w' \<and>
               events w' = events w
                 @ (if do_stty sc then [Tcsetattr (fd sc) (termios sc)] else [])
                 @ (if fd sc \<noteq> -1 then [Close (fd sc)] else [])
                 @ [Filter (argp sc) None, Free_softc]))
       \<and> (vbus_init key os path ds True a w0 = Init_started sc1 w1 \<longrightarrow>
            (\<exists>evs. events w1 = events w0 @ evs \<and> filter is_sentinel evs = []) \<and> filter_fn sc1)
       \<and> (vbus_init key os path ds True a w0 = Init_null w1 \<longrightarrow>
            (\<exists>evs. events w1 = events w0 @ evs \<and>
               length (filter is_sentinel evs) =
                 (if (key = 0 \<and> key_create_rc os \<noteq> 0) \<or> \<not> malloc_softc os then 0 else 1)))"
proof (intro conjI)
  obtain w'' evs where r: "thread_loop sc w = Exit 0 (read_fails sc w'')"
    "events w'' = events w @ evs" "\<forall>e\<in>set evs. loop_event e"
    using thread_loop_run [OF assms, of w] by blast
  let ?w' = "vbus_dtor (Some sc) (read_fails sc w'')"
  let ?tear = "(if do_stty sc then [Tcsetattr (fd sc) (termios sc)] else [])
              @ (if fd sc \<noteq> -1 then [Close (fd sc)] else [])"
  have t: "vbus_thread 0 sc w = Exit 0 ?w'" using r(1) by (simp add: vbus_thread_def)
  have e: "events ?w' = events w @ evs @ [Read (fd sc) None]
              @ (if do_stty sc then [Tcsetattr (fd sc) (termios sc)] else [])
              @ (if fd sc \<noteq> -1 then [Close (fd sc)] else [])
              @ [Filter (argp sc) None, Free_softc]"
    using assms r(2) by (simp add: vbus_dtor_def events_vbus_cleanup events_read_fails)
  have "drop (length (events w)) (events ?w') =
      evs @ [Read (fd sc) None] @ ?tear @ [Filter (argp sc) None, Free_softc]"
    unfolding e by simp
  then have "length (filter is_sentinel (drop (length (events w)) (events ?w'))) = 1"
    using filter_sentinel_loop [OF r(3)] by simp
  with t e r(3) show "\<exists>w' evs. vbus_thread 0 sc w = Exit 0 w' \<and>
            events w' = events w @ evs @ [Read (fd sc) None]
              @ (if do_stty sc then [Tcsetattr (fd sc) (termios sc)] else [])
              @ (if fd sc \<noteq> -1 then [Close (fd sc)] else [])
              @ [Filter (argp sc) None, Free_softc] \<and>
            (\<forall>e\<in>set evs. loop_event e) \<and>
            length (filter is_sentinel (drop (length (events w)) (events w'))) = 1"
    by blast
next
  show "rc \<noteq> 0 \<longrightarrow>
            (\<exists>w'. vbus_thread rc sc w = Exit (word_of_int (errno w')) w' \<and>
               events w' = events w
                 @ (if do_stty sc then [Tcsetattr (fd sc) (termios sc)] else [])
                 @ (if fd sc \<noteq> -1 then [Close (fd sc)] else [])
                 @ [Filter (argp sc) None, Free_softc])"
    using assms by (simp add: vbus_thread_def Let_def events_vbus_cleanup)
next
  show "vbus_init key os path ds True a w0 = Init_started sc1 w1 \<longrightarrow>
      (\<exists>evs. events w1 = events w0 @ evs \<and> filter is_sentinel evs = []) \<and> filter_fn sc1"
    using vbus_init_events [of key os path ds a w0 w1 sc1] by blast
next
  show "vbus_init key os path ds True a w0 = Init_null w1 \<longrightarrow>
      (\<exists>evs. events w1 = events w0 @ evs \<and>
         length (filter is_sentinel evs) =
           (if (key = 0 \<and> key_create_rc os \<noteq> 0) \<or> \<not> malloc_softc os then 0 else 1))"
    using vbus_init_events [of key os path ds a w0 w1 sc1] by blast
qed

theorem vbus_thread_sentinel_once_witness:
  "(\<exists>w' evs. vbus_thread 0 sc0 (world0 [0x01, 0xaa, 0x02] None) = Exit 0 w' \<and>
      events w' = evs @ [Read 3 None, Close 3, Filter 0 None, Free_softc] \<and>
      length (filter is_sentinel (events w')) = 1)
   \<and> (\<exists>w'. vbus_thread 1 sc0 (close_sets_errno 7 25) = Exit 25 w' \<and>
         events w' = [Close 3, Filter 0 None, Free_softc])"
proof (intro conjI)
  have f: "filter_fn sc0" by (simp add: sc0_def)
  from vbus_thread_sentinel_once [OF f, of "world0 [0x01, 0xaa, 0x02] None", THEN conjunct1]
  obtain w' evs where r: "vbus_thread 0 sc0 (world0 [0x01, 0xaa, 0x02] None) = Exit 0 w'"
    "events w' = events (world0 [0x01, 0xaa, 0x02] None) @ evs @ [Read (fd sc0) None]
              @ (if do_stty sc0 then [Tcsetattr (fd sc0) (termios sc0)] else [])
              @ (if fd sc0 \<noteq> -1 then [Close (fd sc0)] else [])
              @ [Filter (argp sc0) None, Free_softc]"
    "length (filter is_sentinel
       (drop (length (events (world0 [0x01, 0xaa, 0x02] None))) (events w'))) = 1"
    by blast
  have "events w' = evs @ [Read 3 None, Close 3, Filter 0 None, Free_softc]"
    using r(2) by (simp add: sc0_def world0_def)
  moreover have "length (filter is_sentinel (events w')) = 1"
    using r(3) by (simp add: world0_def)
  ultimately show "\<exists>w' evs. vbus_thread 0 sc0 (world0 [0x01, 0xaa, 0x02] None) = Exit 0 w' \<and>
      events w' = evs @ [Read 3 None, Close 3, Filter 0 None, Free_softc] \<and>
      length (filter is_sentinel (events w')) = 1"
    using r(1) by blast
next
  show "\<exists>w'. vbus_thread 1 sc0 (close_sets_errno 7 25) = Exit 25 w' \<and>
         events w' = [Close 3, Filter 0 None, Free_softc]"
    by (simp add: vbus_thread_def vbus_cleanup_def call_def emit_def Let_def sc0_def
        close_sets_errno_def world0_def)
qed


text \<open>
  C5. The first read of a worker fails with error 5. \<open>vbus_getc\<close> leaves through
  \<open>vbus_fini\<close> with \<open>errno = 5\<close>, and the worker's exit value, which \<open>vbus_join\<close>
  returns, is NULL and not 5. The worker's other exit, taken when
  \<open>pthread_setspecific\<close> fails, does pass \<open>errno\<close> on: with \<open>errno = 5\<close> the value
  that \<open>vbus_join\<close> returns is 5.
\<close>

theorem vbus_thread_read_error_exits_null:
  "vbus_getc sc0 (world0 [] (Some 5)) = Exit 0 (read_fails sc0 (world0 [] (Some 5)))
   \<and> errno (final_world (vbus_getc sc0 (world0 [] (Some 5)))) = 5
   \<and> vbus_join True (vbus_thread 0 sc0 (world0 [] (Some 5))) = Some 0
   \<and> (0 :: ptr) \<noteq> word_of_int 5
   \<and> vbus_join True (vbus_thread 1 sc0 ((world0 [] None)\<lparr>errno := 5\<rparr>)) = Some 5"
proof (intro conjI)
  show "vbus_getc sc0 (world0 [] (Some 5)) = Exit 0 (read_fails sc0 (world0 [] (Some 5)))"
    by (simp add: vbus_getc_def vbus_fini_def read_fails_def world0_def)
  show "errno (final_world (vbus_getc sc0 (world0 [] (Some 5)))) = 5"
    by (simp add: vbus_getc_def vbus_fini_def emit_def world0_def)
  have "VBUS_SYNC \<notin> set (input (world0 [] (Some 5)))" by (simp add: world0_def)
  then have "thread_loop sc0 (world0 [] (Some 5)) =
      Exit 0 (read_fails sc0 (consume sc0 (input (world0 [] (Some 5))) (world0 [] (Some 5))))"
    by (rule thread_loop_no_sync)
  then show "vbus_join True (vbus_thread 0 sc0 (world0 [] (Some 5))) = Some 0"
    by (simp add: vbus_thread_def vbus_join_def)
  show "(0 :: ptr) \<noteq> word_of_int 5" by simp
  show "vbus_join True (vbus_thread 1 sc0 ((world0 [] None)\<lparr>errno := 5\<rparr>)) = Some 5"
    by (simp add: vbus_thread_def vbus_join_def vbus_cleanup_def call_def emit_def Let_def
        sc0_def world0_def)
qed


text \<open>
  C8 asks that the path \<open>-\<close> stands for standard input and is not opened. The
  condition of line 207 joins its two tests with \<open>||\<close>, so every path that is not
  NULL is opened: with no file named \<open>-\<close> the start fails, and with one the worker
  reads from that file (descriptor 5 here), not from standard input (descriptor 0).
\<close>

theorem vbus_init_dash_is_opened:
  "vbus_init 0 os0 (Some ''-'') False True 0 (world0 [] None) =
     Init_null ((world0 [] None)\<lparr>events := [Open_dev ''-'', Filter 0 None, Free_softc]\<rparr>)
   \<and> vbus_init 0 (os0\<lparr>open_rc := (\<lambda>path. 5)\<rparr>) (Some ''-'') False True 0 (world0 [] None) =
     Init_started
       \<lparr>fd = 5, do_stty = False, termios = 0, raw_termios = 0, filter_fn = True, argp = 0\<rparr>
       ((world0 [] None)\<lparr>events := [Open_dev ''-'']\<rparr>)"
  by (simp add: vbus_init_def os0_def open_wanted_def init_stty_def init_launch_def
      vbus_cleanup_def emit_def call_def world0_def Let_def)

end
